theory Spec2Isabelle
  imports Complex_Main "HOL-Library.Multiset" "HOL-Library.Product_Lexorder"
begin

section \<open>Date extraction (process\_paper.py, extract\_date\_from\_folder\_name)\<close>

text \<open>
  A Python string is a sequence of Unicode code points, and the function of this section
  takes any string. Here a string is the list of its code points, \<open>str\<close>. The names of
  the file tree further down are kept to code points below 256 and written as \<open>string\<close>;
  \<open>code_points\<close> gives the Python string of such a name.
\<close>

type_synonym str = "int list"

definition code_point :: "char \<Rightarrow> int" where
  "code_point c = of_char c"

definition code_points :: "string \<Rightarrow> str" where
  "code_points s = map code_point s"

datatype exn =
    ValueError
  | TypeError
  | ZeroDivisionError
  | IndexError
  | FileExistsError
  | FileNotFoundError
  | NotADirectoryError
  | IsADirectoryError
  | PipelineError

text \<open>
  A \<open>datetime\<close> object. Every datetime the program builds has its time of day at
  midnight, so only the calendar fields are kept; Python compares such objects field by
  field, year first.
\<close>

record datetime =
  year :: nat
  month :: nat
  day :: nat

definition mk_datetime :: "nat \<Rightarrow> nat \<Rightarrow> nat \<Rightarrow> datetime" where
  "mk_datetime y m d = \<lparr>year = y, month = m, day = d\<rparr>"

text \<open>
  In a pattern over \<open>str\<close> the class \<open>\d\<close> matches every character of Unicode's category
  Nd (decimal digit), not only the ten ASCII digits, and \<open>int\<close> reads every such
  character as its digit. These characters come in runs of ten, the digits 0 to 9 in
  order; \<open>decimal_zeros\<close> lists the code point of the zero of each run in increasing
  order (version 14.0 of the character database, the one of Python 3.11). The first run
  is ASCII, the run at 65296 is the full-width digits. \<open>run_zero\<close> looks a code point up:
  it goes through the runs until one holds the code point or starts above it.
\<close>

definition decimal_zeros :: "int list" where
  "decimal_zeros =
     [48, 1632, 1776, 1984, 2406, 2534, 2662, 2790, 2918, 3046, 3174, 3302, 3430, 3558,
      3664, 3792, 3872, 4160, 4240, 6112, 6160, 6470, 6608, 6784, 6800, 6992, 7088, 7232,
      7248, 42528, 43216, 43264, 43472, 43504, 43600, 44016, 65296, 66720, 68912, 69734,
      69872, 69942, 70096, 70384, 70736, 70864, 71248, 71360, 71472, 71904, 72016, 72784,
      73040, 73120, 92768, 92864, 93008, 120782, 120792, 120802, 120812, 120822, 123200,
      123632, 125264, 130032]"

fun run_zero :: "int list \<Rightarrow> int \<Rightarrow> int option" where
  "run_zero [] c = None"
| "run_zero (z # zs) c =
     (if c < z then None else if c < z + 10 then Some z else run_zero zs c)"

definition decimal_value :: "int \<Rightarrow> nat option" where
  "decimal_value c = map_option (\<lambda>z. nat (c - z)) (run_zero decimal_zeros c)"

definition is_digit :: "int \<Rightarrow> bool" where
  "is_digit c = (decimal_value c \<noteq> None)"

definition digit_val :: "int \<Rightarrow> nat" where
  "digit_val c = (case decimal_value c of Some v \<Rightarrow> v | None \<Rightarrow> 0)"

text \<open>Python's \<open>int\<close> on a string of decimal digits.\<close>

definition int_of_digits :: "str \<Rightarrow> nat" where
  "int_of_digits ds = foldl (\<lambda>a c. 10 * a + digit_val c) 0 ds"

text \<open>
  A class such as \<open>[1-9]\<close> of a pattern matches the code points from its first to its
  last character.
\<close>

definition in_class :: "char \<Rightarrow> char \<Rightarrow> int \<Rightarrow> bool" where
  "in_class lo hi c = (code_point lo \<le> c \<and> c \<le> code_point hi)"

text \<open>
  The pattern \<open>(\d{4}-\d{2}-\d{2})\<close> is a sequence of ten single-character atoms.
  \<open>match_here\<close> tells whether the pattern matches at the start of a string.
\<close>

datatype atom = Digit | Lit char

fun atom_matches :: "atom \<Rightarrow> int \<Rightarrow> bool" where
  "atom_matches Digit c = is_digit c"
| "atom_matches (Lit l) c = (c = code_point l)"

fun match_here :: "atom list \<Rightarrow> str \<Rightarrow> bool" where
  "match_here [] s = True"
| "match_here (a # as) [] = False"
| "match_here (a # as) (c # cs) = (atom_matches a c \<and> match_here as cs)"

definition date_pattern :: "atom list" where
  "date_pattern =
     [Digit, Digit, Digit, Digit, Lit CHR ''-'', Digit, Digit, Lit CHR ''-'', Digit, Digit]"

text \<open>
  \<open>re.findall(date_pattern, folder_name)\<close>: the scan goes left to right; a match of the
  ten-character pattern is recorded and the scan resumes right after it, otherwise it moves
  one character on.
\<close>

fun findall_dates :: "str \<Rightarrow> str list" where
  "findall_dates [] = []"
| "findall_dates (c # cs) =
     (if match_here date_pattern (c # cs)
      then take 10 (c # cs) # findall_dates (drop 9 cs)
      else findall_dates cs)"

text \<open>
  \<open>datetime.strptime(s, '%Y-%m-%d')\<close>. The library turns the format into the regular
  expression
  \<^verbatim>\<open>(?P<Y>\d\d\d\d)-(?P<m>1[0-2]|0[1-9]|[1-9])-(?P<d>3[0-1]|[1-2]\d|0[1-9]|[1-9]| [1-9])\<close>,
  matches it at the start of the string with backtracking over the alternatives in the
  order written, raises \<open>ValueError\<close> when there is no match or when text remains after
  the match, and finally builds the date from \<open>int\<close> of the three groups, which raises
  \<open>ValueError\<close> for year 0 and for a day beyond the end of the month. The literal digits
  and the classes of the expression are ASCII; its \<open>\d\<close> is any decimal digit.
\<close>

definition month_alternatives :: "str \<Rightarrow> (nat \<times> str) list" where
  "month_alternatives s =
     (case s of
        a # b # r \<Rightarrow>
          (if a = code_point CHR ''1'' \<and> in_class CHR ''0'' CHR ''2'' b
           then [(int_of_digits [a, b], r)] else []) @
          (if a = code_point CHR ''0'' \<and> in_class CHR ''1'' CHR ''9'' b
           then [(int_of_digits [a, b], r)] else []) @
          (if in_class CHR ''1'' CHR ''9'' a then [(int_of_digits [a], b # r)] else [])
      | [a] \<Rightarrow> (if in_class CHR ''1'' CHR ''9'' a then [(int_of_digits [a], [])] else [])
      | [] \<Rightarrow> [])"

definition day_alternatives :: "str \<Rightarrow> (nat \<times> str) list" where
  "day_alternatives s =
     (case s of
        a # b # r \<Rightarrow>
          (if a = code_point CHR ''3'' \<and> in_class CHR ''0'' CHR ''1'' b
           then [(int_of_digits [a, b], r)] else []) @
          (if in_class CHR ''1'' CHR ''2'' a \<and> is_digit b
           then [(int_of_digits [a, b], r)] else []) @
          (if a = code_point CHR ''0'' \<and> in_class CHR ''1'' CHR ''9'' b
           then [(int_of_digits [a, b], r)] else []) @
          (if in_class CHR ''1'' CHR ''9'' a then [(int_of_digits [a], b # r)] else []) @
          (if a = code_point CHR '' '' \<and> in_class CHR ''1'' CHR ''9'' b
           then [(int_of_digits [b], r)] else [])
      | [a] \<Rightarrow> (if in_class CHR ''1'' CHR ''9'' a then [(int_of_digits [a], [])] else [])
      | [] \<Rightarrow> [])"

definition is_leap :: "nat \<Rightarrow> bool" where
  "is_leap y = (y mod 4 = 0 \<and> (y mod 100 \<noteq> 0 \<or> y mod 400 = 0))"

definition days_in_month :: "nat \<Rightarrow> nat \<Rightarrow> nat" where
  "days_in_month y m =
     (if m = 2 then (if is_leap y then 29 else 28)
      else if m \<in> {4, 6, 9, 11} then 30 else 31)"

text \<open>The constructor \<open>datetime(y, m, d)\<close>, which validates its arguments.\<close>

definition datetime_new :: "nat \<Rightarrow> nat \<Rightarrow> nat \<Rightarrow> exn + datetime" where
  "datetime_new y m d =
     (if 1 \<le> y \<and> y \<le> 9999 \<and> 1 \<le> m \<and> m \<le> 12 \<and> 1 \<le> d \<and> d \<le> days_in_month y m
      then Inr (mk_datetime y m d) else Inl ValueError)"

text \<open>
  \<open>format_matches\<close> lists the ways the expression matches at the start of the
  string, in the order the backtracking matcher finds them: year, month, day and the text
  left over. The matcher takes the first.
\<close>

definition after_dash :: "str \<Rightarrow> str option" where
  "after_dash r =
     (case r of c # r' \<Rightarrow> (if c = code_point CHR ''-'' then Some r' else None) | [] \<Rightarrow> None)"

definition format_matches :: "str \<Rightarrow> (nat \<times> nat \<times> nat \<times> str) list" where
  "format_matches s =
     (case s of
        y1 # y2 # y3 # y4 # r \<Rightarrow>
          (if is_digit y1 \<and> is_digit y2 \<and> is_digit y3 \<and> is_digit y4 then
             (case after_dash r of
                None \<Rightarrow> []
              | Some r1 \<Rightarrow>
                  concat (map (\<lambda>(m, r2).
                     (case after_dash r2 of
                        None \<Rightarrow> []
                      | Some r3 \<Rightarrow>
                          map (\<lambda>(d, r4). (int_of_digits [y1, y2, y3, y4], m, d, r4))
                            (day_alternatives r3)))
                   (month_alternatives r1)))
           else [])
      | _ \<Rightarrow> [])"

definition strptime_Ymd :: "str \<Rightarrow> exn + datetime" where
  "strptime_Ymd s =
     (case format_matches s of
        [] \<Rightarrow> Inl ValueError
      | (y, m, d, rest) # _ \<Rightarrow>
          (if rest \<noteq> [] then Inl ValueError else datetime_new y m d))"

text \<open>The sentinel \<open>datetime(1900, 1, 1)\<close> returned when no date can be extracted.\<close>

definition sentinel_date :: datetime where
  "sentinel_date = mk_datetime 1900 1 1"

text \<open>
  The body of the function is a \<open>try\<close> whose handler catches every \<open>Exception\<close> and
  returns the sentinel; the only call in it that can raise is \<open>strptime\<close>.
\<close>

definition extract_date_from_folder_name :: "str \<Rightarrow> datetime" where
  "extract_date_from_folder_name folder_name =
     (case findall_dates folder_name of
        first # _ \<Rightarrow>
          (case strptime_Ymd first of
             Inr first_date \<Rightarrow> first_date
           | Inl e \<Rightarrow> sentinel_date)
      | [] \<Rightarrow> sentinel_date)"

section \<open>Folder ordering (process\_paper.py, sort\_folders\_by\_date\_desc)\<close>

text \<open>
  A path is the list of its components; \<open>Path.name\<close> is the last component, and
  \<open>code_points\<close> of it is the string that the date extraction is given.
\<close>

type_synonym path = "string list"

definition path_name :: "path \<Rightarrow> string" where
  "path_name p = (if p = [] then [] else last p)"

text \<open>The order of two datetimes is the lexicographic order of their fields.\<close>

definition date_key :: "datetime \<Rightarrow> nat \<times> nat \<times> nat" where
  "date_key d = (year d, month d, day d)"

text \<open>
  \<open>list.sort(key=..., reverse=True)\<close> is stable: the interpreter reverses the list, sorts
  it stably in ascending order of the key, and reverses the result.
\<close>

definition sort_reverse :: "('a \<Rightarrow> 'k::linorder) \<Rightarrow> 'a list \<Rightarrow> 'a list" where
  "sort_reverse f xs = rev (sort_key f (rev xs))"

definition sort_folders_by_date_desc :: "path list \<Rightarrow> path list" where
  "sort_folders_by_date_desc folder_paths =
     (let folder_date_pairs =
            map (\<lambda>path. (path, extract_date_from_folder_name (code_points (path_name path))))
              folder_paths;
          sorted_pairs = sort_reverse (\<lambda>x. date_key (snd x)) folder_date_pairs
      in map fst sorted_pairs)"

section \<open>The file system\<close>

text \<open>
  The program reads and writes one file tree. A file system is a list of entries, each a
  path with its kind; the first entry for a path is the current one, and the root (the
  empty path) is always a directory. Nothing in the program removes an entry. Path
  components are opaque names: dot components and symbolic links are not resolved.
\<close>

datatype kind = RegularFile | Directory

type_synonym filesystem = "(path \<times> kind) list"

definition fs_lookup :: "filesystem \<Rightarrow> path \<Rightarrow> kind option" where
  "fs_lookup fs p = (if p = [] then Some Directory else map_of fs p)"

definition path_exists :: "filesystem \<Rightarrow> path \<Rightarrow> bool" where
  "path_exists fs p = (fs_lookup fs p \<noteq> None)"

definition is_dir :: "filesystem \<Rightarrow> path \<Rightarrow> bool" where
  "is_dir fs p = (fs_lookup fs p = Some Directory)"

definition is_file :: "filesystem \<Rightarrow> path \<Rightarrow> bool" where
  "is_file fs p = (fs_lookup fs p = Some RegularFile)"

text \<open>The entries directly below a directory, each listed once.\<close>

definition children :: "filesystem \<Rightarrow> path \<Rightarrow> path list" where
  "children fs d = remdups (filter (\<lambda>p. p \<noteq> [] \<and> butlast p = d) (map fst fs))"

definition iterdir :: "filesystem \<Rightarrow> path \<Rightarrow> exn + path list" where
  "iterdir fs d =
     (case fs_lookup fs d of
        Some Directory \<Rightarrow> Inr (children fs d)
      | Some RegularFile \<Rightarrow> Inl NotADirectoryError
      | None \<Rightarrow> Inl FileNotFoundError)"

text \<open>\<open>Path.mkdir(exist_ok=True)\<close>: the parent has to be there.\<close>

definition mkdir :: "filesystem \<Rightarrow> path \<Rightarrow> exn + filesystem" where
  "mkdir fs p =
     (case fs_lookup fs p of
        Some Directory \<Rightarrow> Inr fs
      | Some RegularFile \<Rightarrow> Inl FileExistsError
      | None \<Rightarrow>
          (case fs_lookup fs (butlast p) of
             Some Directory \<Rightarrow> Inr ((p, Directory) # fs)
           | Some RegularFile \<Rightarrow> Inl NotADirectoryError
           | None \<Rightarrow> Inl FileNotFoundError))"

text \<open>
  \<open>Path.mkdir(parents=True, exist_ok=True)\<close> and \<open>os.makedirs(p, exist_ok=True)\<close>:
  missing ancestors are created first.
\<close>

function makedirs :: "filesystem \<Rightarrow> path \<Rightarrow> exn + filesystem" where
  "makedirs fs p =
     (case fs_lookup fs p of
        Some Directory \<Rightarrow> Inr fs
      | Some RegularFile \<Rightarrow> Inl FileExistsError
      | None \<Rightarrow>
          (case fs_lookup fs (butlast p) of
             Some Directory \<Rightarrow> Inr ((p, Directory) # fs)
           | Some RegularFile \<Rightarrow> Inl NotADirectoryError
           | None \<Rightarrow>
               (case makedirs fs (butlast p) of
                  Inl e \<Rightarrow> Inl e
                | Inr fs' \<Rightarrow> mkdir fs' p)))"
  by pat_completeness auto
termination
  by (relation "measure (\<lambda>(fs, p). length p)") (auto simp: fs_lookup_def split: if_splits)

declare makedirs.simps [simp del]

text \<open>
  Modelled from the spec: the data writer of the conversion library (\<open>FileBasedDataWriter\<close>)
  and \<open>draw_layout_bbox\<close> are not among the sources. Writing an artifact puts a regular
  file at its path of the output layout: the directory of the file is created when it is
  missing, then the file is opened for writing.
\<close>

definition write_file :: "filesystem \<Rightarrow> path \<Rightarrow> exn + filesystem" where
  "write_file fs p =
     (case (if path_exists fs (butlast p) then Inr fs else makedirs fs (butlast p)) of
        Inl e \<Rightarrow> Inl e
      | Inr fs' \<Rightarrow>
          (case fs_lookup fs' p of
             Some Directory \<Rightarrow> Inl IsADirectoryError
           | Some RegularFile \<Rightarrow> Inr fs'
           | None \<Rightarrow>
               (if is_dir fs' (butlast p) then Inr ((p, RegularFile) # fs')
                else Inl NotADirectoryError)))"

text \<open>
  \<open>Path.suffix\<close> and \<open>Path.stem\<close> of a file name, as pathlib computes them from the
  position of the last dot: a dot at the start or at the end of the name does not begin
  a suffix.
\<close>

definition rfind_dot :: "string \<Rightarrow> nat option" where
  "rfind_dot name =
     (if CHR ''.'' \<in> set name
      then Some (length name - 1 - length (takeWhile (\<lambda>c. c \<noteq> CHR ''.'') (rev name)))
      else None)"

definition suffix :: "string \<Rightarrow> string" where
  "suffix name =
     (case rfind_dot name of
        Some i \<Rightarrow> (if 0 < i \<and> i + 1 < length name then drop i name else [])
      | None \<Rightarrow> [])"

definition stem :: "string \<Rightarrow> string" where
  "stem name =
     (case rfind_dot name of
        Some i \<Rightarrow> (if 0 < i \<and> i + 1 < length name then take i name else name)
      | None \<Rightarrow> name)"

definition ends_with :: "string \<Rightarrow> string \<Rightarrow> bool" where
  "ends_with suf s = (length suf \<le> length s \<and> drop (length s - length suf) s = suf)"

text \<open>\<open>subfolder.glob('*.pdf')\<close>: the entries of the folder whose name ends in \<open>.pdf\<close>.\<close>

definition glob_pdf :: "filesystem \<Rightarrow> path \<Rightarrow> path list" where
  "glob_pdf fs d =
     (if is_dir fs d then filter (\<lambda>p. ends_with ''.pdf'' (path_name p)) (children fs d) else [])"

section \<open>The world: file system and log\<close>

text \<open>
  The log lines and pauses that the properties below speak about are recorded as events,
  in the order the program produces them. A count in an event is the number the program
  holds at that point.
\<close>

datatype event =
    Parsing string
  | Parsed string
  | ParseFailed string
  | UnsupportedBackend
  | ReadFailed string
  | BatchSkipped nat
  | BatchDispatched "string list"
  | ParseDocFailed exn
  | FolderEmpty string
  | FolderAllDone string
  | FolderNeeds string nat
  | FolderDone string
  | FolderError string nat
  | Sleep nat

record world =
  fs :: filesystem
  trace :: "event list"

definition emit :: "event \<Rightarrow> world \<Rightarrow> world" where
  "emit e w = w\<lparr>trace := trace w @ [e]\<rparr>"

text \<open>
  A call either returns or raises; in both cases the world it leaves behind is kept.
\<close>

datatype 'a outcome = Normal 'a | Raised exn 'a

section \<open>The conversion pipeline (mineru\_vlm.py)\<close>

text \<open>
  The collaborators that read and convert documents are outside the program. Their
  behaviour is a parameter: \<open>read_fn\<close> gives the bytes of a file or \<open>None\<close> when reading
  raises, and \<open>raises\<close> tells at which steps the conversion of a document raises.
\<close>

type_synonym bytes = "nat list"

datatype step =
    ConvertPages
  | PrepareEnv
  | Analyze
  | DrawLayoutBbox
  | DumpOrigPdf
  | DumpMd
  | DumpContentList
  | DumpMiddleJson
  | DumpModelOutput

record env =
  read_fn :: "path \<Rightarrow> bytes option"
  raises :: "path \<Rightarrow> string \<Rightarrow> bytes \<Rightarrow> step \<Rightarrow> bool"

text \<open>
  The keyword arguments of \<open>parse_doc\<close> that \<open>process_folder_structure\<close> passes on from
  \<open>**parsing_config\<close>, with the defaults of \<open>parse_doc\<close> filled in. The options
  \<open>lang\<close>, \<open>server_url\<close>, \<open>formula_enable\<close>, \<open>table_enable\<close> and \<open>f_make_md_mode\<close> only
  reach the collaborators. \<open>unexpected_keywords\<close> lists the keys of \<open>parsing_config\<close>
  that \<open>parse_doc\<close> does not accept as keyword arguments: its own parameter names are the
  only ones it accepts, and \<open>path_list\<close> and \<open>output_dir\<close> are already given by the caller.
\<close>

record parsing_config =
  backend :: string
  start_page_id :: int
  end_page_id :: "int option"
  f_draw_layout_bbox :: bool
  f_dump_md :: bool
  f_dump_middle_json :: bool
  f_dump_model_output :: bool
  f_dump_orig_pdf :: bool
  f_dump_content_list :: bool
  unexpected_keywords :: "string list"

text \<open>
  Modelled from the spec: \<open>prepare_env\<close> belongs to the conversion library and is not among
  the sources. It creates the directories of a document in the output layout,
  \<open>output_dir/name/vlm\<close> and \<open>images\<close> below it, and returns them.
\<close>

definition local_md_dir :: "path \<Rightarrow> string \<Rightarrow> path" where
  "local_md_dir output_dir pdf_file_name = output_dir @ [pdf_file_name, ''vlm'']"

definition prepare_env :: "path \<Rightarrow> string \<Rightarrow> filesystem \<Rightarrow> exn + filesystem" where
  "prepare_env output_dir pdf_file_name fs0 =
     (case makedirs fs0 (local_md_dir output_dir pdf_file_name @ [''images'']) of
        Inl e \<Rightarrow> Inl e
      | Inr fs1 \<Rightarrow> makedirs fs1 (local_md_dir output_dir pdf_file_name))"

text \<open>
  The statements of the \<open>try\<close> block of \<open>do_parse\<close> for one document, in order: the step,
  whether the configuration enables it, and what it does to the file system. The file
  names are those the block builds from the name of the document. The images that the
  analysis may write below \<open>images\<close> are not tracked.
\<close>

definition document_steps ::
  "parsing_config \<Rightarrow> path \<Rightarrow> string \<Rightarrow> (step \<times> bool \<times> (filesystem \<Rightarrow> exn + filesystem)) list" where
  "document_steps cfg output_dir pdf_file_name =
     (let md = local_md_dir output_dir pdf_file_name in
      [(ConvertPages, 0 < start_page_id cfg \<or> end_page_id cfg \<noteq> None, Inr),
       (PrepareEnv, True, prepare_env output_dir pdf_file_name),
       (Analyze, True, Inr),
       (DrawLayoutBbox, f_draw_layout_bbox cfg, \<lambda>fs0. write_file fs0 (md @ [pdf_file_name @ ''_layout.pdf''])),
       (DumpOrigPdf, f_dump_orig_pdf cfg, \<lambda>fs0. write_file fs0 (md @ [pdf_file_name @ ''_origin.pdf''])),
       (DumpMd, f_dump_md cfg, \<lambda>fs0. write_file fs0 (md @ [pdf_file_name @ ''.md''])),
       (DumpContentList, f_dump_content_list cfg,
          \<lambda>fs0. write_file fs0 (md @ [pdf_file_name @ ''_content_list.json''])),
       (DumpMiddleJson, f_dump_middle_json cfg,
          \<lambda>fs0. write_file fs0 (md @ [pdf_file_name @ ''_middle.json''])),
       (DumpModelOutput, f_dump_model_output cfg,
          \<lambda>fs0. write_file fs0 (md @ [pdf_file_name @ ''_model_output.txt'']))])"

text \<open>
  Running the block: a step that is not enabled is passed over; a step that raises ends
  the block with the file system as it is then.
\<close>

fun run_steps ::
  "(step \<Rightarrow> bool) \<Rightarrow> (step \<times> bool \<times> (filesystem \<Rightarrow> exn + filesystem)) list \<Rightarrow>
   filesystem \<Rightarrow> filesystem outcome" where
  "run_steps bad [] fs0 = Normal fs0"
| "run_steps bad ((st, enabled, effect) # rest) fs0 =
     (if \<not> enabled then run_steps bad rest fs0
      else if bad st then Raised PipelineError fs0
      else (case effect fs0 of
              Inl e \<Rightarrow> Raised e fs0
            | Inr fs1 \<Rightarrow> run_steps bad rest fs1))"

text \<open>
  The loop of \<open>do_parse\<close> over \<open>enumerate(pdf_bytes_list)\<close>. The name is read by index
  before the \<open>try\<close>; the handler of the \<open>try\<close> logs the failure and goes on with the next
  document.
\<close>

fun do_parse_loop ::
  "env \<Rightarrow> parsing_config \<Rightarrow> path \<Rightarrow> string list \<Rightarrow> nat \<Rightarrow> bytes list \<Rightarrow> world \<Rightarrow> world outcome" where
  "do_parse_loop ev cfg output_dir pdf_file_names idx [] w = Normal w"
| "do_parse_loop ev cfg output_dir pdf_file_names idx (pdf_bytes # rest) w =
     (if length pdf_file_names \<le> idx then Raised IndexError w
      else
        (let pdf_file_name = pdf_file_names ! idx;
             w1 = emit (Parsing pdf_file_name) w
         in case run_steps (raises ev output_dir pdf_file_name pdf_bytes)
                   (document_steps cfg output_dir pdf_file_name) (fs w1) of
              Normal fs1 \<Rightarrow>
                do_parse_loop ev cfg output_dir pdf_file_names (Suc idx) rest
                  (emit (Parsed pdf_file_name) (w1\<lparr>fs := fs1\<rparr>))
            | Raised e fs1 \<Rightarrow>
                do_parse_loop ev cfg output_dir pdf_file_names (Suc idx) rest
                  (emit (ParseFailed pdf_file_name) (w1\<lparr>fs := fs1\<rparr>))))"

definition do_parse ::
  "env \<Rightarrow> parsing_config \<Rightarrow> path \<Rightarrow> string list \<Rightarrow> bytes list \<Rightarrow> world \<Rightarrow> world outcome" where
  "do_parse ev cfg output_dir pdf_file_names pdf_bytes_list w =
     (if backend cfg = ''vlm-transformers''
      then do_parse_loop ev cfg output_dir pdf_file_names 0 pdf_bytes_list w
      else Normal (emit UnsupportedBackend w))"

text \<open>
  Python's slice \<open>xs[start:end]\<close> for integer bounds: a negative bound counts from the
  end, and both are clipped to the list.
\<close>

definition clip_index :: "nat \<Rightarrow> int \<Rightarrow> nat" where
  "clip_index n i = (if i < 0 then nat (max 0 (int n + i)) else min n (nat i))"

definition py_slice :: "'a list \<Rightarrow> int \<Rightarrow> int \<Rightarrow> 'a list" where
  "py_slice xs start_idx end_idx =
     (let s = clip_index (length xs) start_idx; e = clip_index (length xs) end_idx
      in take (e - s) (drop s xs))"

definition total_batches :: "'a list \<Rightarrow> int \<Rightarrow> int" where
  "total_batches path_list batch_size =
     (int (length path_list) + batch_size - 1) div batch_size"

definition current_batch :: "'a list \<Rightarrow> int \<Rightarrow> int \<Rightarrow> 'a list" where
  "current_batch path_list batch_size batch_idx =
     (let start_idx = batch_idx * batch_size;
          end_idx = min (start_idx + batch_size) (int (length path_list))
      in py_slice path_list start_idx end_idx)"

text \<open>
  Reading the files of a batch: a file that cannot be read is logged and left out.
\<close>

fun read_batch ::
  "env \<Rightarrow> path list \<Rightarrow> string list \<times> bytes list \<times> world \<Rightarrow> string list \<times> bytes list \<times> world" where
  "read_batch ev [] acc = acc"
| "read_batch ev (p # rest) (file_name_list, pdf_bytes_list, w) =
     (let file_name = stem (path_name p) in
      case read_fn ev p of
        Some pdf_bytes \<Rightarrow>
          read_batch ev rest (file_name_list @ [file_name], pdf_bytes_list @ [pdf_bytes], w)
      | None \<Rightarrow>
          read_batch ev rest (file_name_list, pdf_bytes_list, emit (ReadFailed file_name) w))"

text \<open>The loop of \<open>parse_doc\<close> over \<open>range(total_batches)\<close>.\<close>

fun batches_loop ::
  "env \<Rightarrow> parsing_config \<Rightarrow> path list \<Rightarrow> path \<Rightarrow> int \<Rightarrow> nat list \<Rightarrow> world \<Rightarrow> world outcome" where
  "batches_loop ev cfg path_list output_dir batch_size [] w = Normal w"
| "batches_loop ev cfg path_list output_dir batch_size (batch_idx # rest) w =
     (case read_batch ev (current_batch path_list batch_size (int batch_idx)) ([], [], w) of
        (file_name_list, pdf_bytes_list, w1) \<Rightarrow>
          (if file_name_list = []
           then batches_loop ev cfg path_list output_dir batch_size rest
                  (emit (BatchSkipped batch_idx) w1)
           else
             (case do_parse ev cfg output_dir file_name_list pdf_bytes_list
                     (emit (BatchDispatched file_name_list) w1) of
                Raised e w2 \<Rightarrow> Raised e w2
              | Normal w2 \<Rightarrow>
                  batches_loop ev cfg path_list output_dir batch_size rest
                    (if int batch_idx < total_batches path_list batch_size - 1
                     then emit (Sleep 2) w2 else w2))))"

text \<open>
  The body of \<open>parse_doc\<close> inside its \<open>try\<close>. The division by the batch size raises
  \<open>ZeroDivisionError\<close> when the size is zero; \<open>range\<close> of a negative number is empty.
\<close>

definition parse_doc_body ::
  "env \<Rightarrow> parsing_config \<Rightarrow> path list \<Rightarrow> path \<Rightarrow> int \<Rightarrow> world \<Rightarrow> world outcome" where
  "parse_doc_body ev cfg path_list output_dir batch_size w =
     (if batch_size = 0 then Raised ZeroDivisionError w
      else batches_loop ev cfg path_list output_dir batch_size
             [0..<nat (total_batches path_list batch_size)] w)"

text \<open>
  \<open>parse_doc\<close>: the handler \<open>except Exception\<close> around the whole body logs the exception
  and the function returns.
\<close>

definition parse_doc ::
  "env \<Rightarrow> parsing_config \<Rightarrow> path list \<Rightarrow> path \<Rightarrow> int \<Rightarrow> world \<Rightarrow> world outcome" where
  "parse_doc ev cfg path_list output_dir batch_size w =
     (case parse_doc_body ev cfg path_list output_dir batch_size w of
        Normal w1 \<Rightarrow> Normal w1
      | Raised e w1 \<Rightarrow> Normal (emit (ParseDocFailed e) w1))"

section \<open>The driver (process\_paper.py, process\_folder\_structure)\<close>

text \<open>
  The call \<open>parse_doc(path_list=..., output_dir=..., batch_size=..., **parsing_config)\<close>:
  a keyword that \<open>parse_doc\<close> does not accept makes the call itself raise \<open>TypeError\<close>,
  before the body of \<open>parse_doc\<close> is entered.
\<close>

definition call_parse_doc ::
  "env \<Rightarrow> parsing_config \<Rightarrow> path list \<Rightarrow> path \<Rightarrow> int \<Rightarrow> world \<Rightarrow> world outcome" where
  "call_parse_doc ev cfg path_list output_dir batch_size w =
     (if unexpected_keywords cfg \<noteq> [] then Raised TypeError w
      else parse_doc ev cfg path_list output_dir batch_size w)"

text \<open>The check for results of an earlier run, in the \<open>vlm\<close> directory of a document.\<close>

definition result_suffixes :: "string list" where
  "result_suffixes = [''.md'', ''.json'', ''.txt'']"

fun has_result_file :: "filesystem \<Rightarrow> path list \<Rightarrow> bool" where
  "has_result_file fs0 [] = False"
| "has_result_file fs0 (result_file # rest) =
     (if is_file fs0 result_file \<and> suffix (path_name result_file) \<in> set result_suffixes
      then True
      else has_result_file fs0 rest)"

definition has_results :: "filesystem \<Rightarrow> path \<Rightarrow> bool" where
  "has_results fs0 output_pdf_dir =
     (let vlm_dir = output_pdf_dir @ [''vlm''] in
      if path_exists fs0 vlm_dir \<and> is_dir fs0 vlm_dir
      then has_result_file fs0 (children fs0 vlm_dir)
      else False)"

definition already_parsed :: "filesystem \<Rightarrow> path \<Rightarrow> path \<Rightarrow> bool" where
  "already_parsed fs0 output_subfolder pdf_file =
     (let pdf_name_without_ext = stem (path_name pdf_file);
          output_pdf_dir = output_subfolder @ [pdf_name_without_ext]
      in path_exists fs0 output_pdf_dir \<and> is_dir fs0 output_pdf_dir \<and> has_results fs0 output_pdf_dir)"

text \<open>
  The loop over \<open>pdf_files\<close> that builds \<open>filtered_pdf_files\<close> and \<open>skipped_count\<close>.
\<close>

fun filter_pdf_files ::
  "filesystem \<Rightarrow> path \<Rightarrow> path list \<Rightarrow> path list \<times> nat \<Rightarrow> path list \<times> nat" where
  "filter_pdf_files fs0 output_subfolder [] acc = acc"
| "filter_pdf_files fs0 output_subfolder (pdf_file # rest) (filtered_pdf_files, skipped_count) =
     (if already_parsed fs0 output_subfolder pdf_file
      then filter_pdf_files fs0 output_subfolder rest (filtered_pdf_files, skipped_count + 1)
      else filter_pdf_files fs0 output_subfolder rest
             (filtered_pdf_files @ [pdf_file], skipped_count))"

record stats =
  total_pdfs :: nat
  total_skipped :: nat
  total_processed :: nat
  skipped_folders :: nat

text \<open>
  One round of the loop over the sorted folders. \<open>n\<close> is the number of folders. Creating
  the output folder is outside any \<open>try\<close>, so its failure ends the run; an exception of
  the call of \<open>parse_doc\<close> is caught, logged, and the loop goes on.
\<close>

definition process_folder ::
  "env \<Rightarrow> parsing_config \<Rightarrow> path \<Rightarrow> int \<Rightarrow> nat \<Rightarrow> nat \<Rightarrow> path \<Rightarrow> world \<times> stats \<Rightarrow>
   (world \<times> stats) outcome" where
  "process_folder ev cfg output_path batch_size n folder_idx subfolder state =
     (case state of (w, s) \<Rightarrow>
      (let output_subfolder = output_path @ [path_name subfolder] in
       case mkdir (fs w) output_subfolder of
         Inl e \<Rightarrow> Raised e (w, s)
       | Inr fs1 \<Rightarrow>
           (let w1 = w\<lparr>fs := fs1\<rparr>;
                pdf_files = glob_pdf fs1 subfolder
            in if pdf_files = [] then Normal (emit (FolderEmpty (path_name subfolder)) w1, s)
               else
                 (let s1 = s\<lparr>total_pdfs := total_pdfs s + length pdf_files\<rparr> in
                  case filter_pdf_files fs1 output_subfolder pdf_files ([], 0) of
                    (filtered_pdf_files, skipped_count) \<Rightarrow>
                      (let s2 = (if 0 < skipped_count
                                 then s1\<lparr>total_skipped := total_skipped s1 + skipped_count\<rparr>
                                 else s1)
                       in if filtered_pdf_files = []
                          then Normal (emit (FolderAllDone (path_name subfolder)) w1,
                                       s2\<lparr>skipped_folders := skipped_folders s2 + 1\<rparr>)
                          else
                            (case call_parse_doc ev cfg filtered_pdf_files output_subfolder
                                    batch_size
                                    (emit (FolderNeeds (path_name subfolder)
                                             (length filtered_pdf_files)) w1) of
                               Normal w2 \<Rightarrow>
                                 (let s3 = s2\<lparr>total_processed :=
                                                total_processed s2 + length filtered_pdf_files\<rparr>;
                                      w3 = emit (FolderDone (path_name subfolder)) w2
                                  in Normal (if int folder_idx < int n - 1
                                             then emit (Sleep 3) w3 else w3, s3))
                             | Raised e w2 \<Rightarrow>
                                 Normal (emit (FolderError (path_name subfolder)
                                                 (length filtered_pdf_files)) w2, s2)))))))"

fun folder_loop ::
  "env \<Rightarrow> parsing_config \<Rightarrow> path \<Rightarrow> int \<Rightarrow> nat \<Rightarrow> nat \<Rightarrow> path list \<Rightarrow> world \<times> stats \<Rightarrow>
   (world \<times> stats) outcome" where
  "folder_loop ev cfg output_path batch_size n folder_idx [] state = Normal state"
| "folder_loop ev cfg output_path batch_size n folder_idx (subfolder # rest) state =
     (case process_folder ev cfg output_path batch_size n folder_idx subfolder state of
        Raised e state1 \<Rightarrow> Raised e state1
      | Normal state1 \<Rightarrow>
          folder_loop ev cfg output_path batch_size n (Suc folder_idx) rest state1)"

text \<open>
  The whole run. It can end early, without statistics, when the input directory is
  missing or has no subfolder; it is aborted by an exception of the calls that are
  outside any \<open>try\<close>; otherwise it reports the four counters and the number of folders
  it takes as processed, \<open>len(sorted_subfolders) - skipped_folders\<close>.
\<close>

datatype run =
    InputMissing
  | NoSubfolders world
  | Aborted exn world
  | Completed world stats int

definition initial_stats :: stats where
  "initial_stats = \<lparr>total_pdfs = 0, total_skipped = 0, total_processed = 0, skipped_folders = 0\<rparr>"

definition process_folder_structure ::
  "env \<Rightarrow> path \<Rightarrow> path \<Rightarrow> int \<Rightarrow> parsing_config \<Rightarrow> filesystem \<Rightarrow> run" where
  "process_folder_structure ev input_path output_path batch_size cfg fs0 =
     (if \<not> path_exists fs0 input_path then InputMissing
      else
        (case makedirs fs0 output_path of
           Inl e \<Rightarrow> Aborted e \<lparr>fs = fs0, trace = []\<rparr>
         | Inr fs1 \<Rightarrow>
             (case iterdir fs1 input_path of
                Inl e \<Rightarrow> Aborted e \<lparr>fs = fs1, trace = []\<rparr>
              | Inr entries \<Rightarrow>
                  (let subfolders = filter (is_dir fs1) entries in
                   if subfolders = [] then NoSubfolders \<lparr>fs = fs1, trace = []\<rparr>
                   else
                     (let sorted_subfolders = sort_folders_by_date_desc subfolders in
                      case folder_loop ev cfg output_path batch_size (length sorted_subfolders) 0
                             sorted_subfolders (\<lparr>fs = fs1, trace = []\<rparr>, initial_stats) of
                        Raised e (w, s) \<Rightarrow> Aborted e w
                      | Normal (w, s) \<Rightarrow>
                          Completed w s
                            (int (length sorted_subfolders) - int (skipped_folders s)))))))"

section \<open>Notions used to state the properties\<close>

text \<open>
  A string has the shape \<open>YYYY-MM-DD\<close>: four decimal digits, a dash, two decimal digits,
  a dash, two decimal digits. \<open>pattern_at s i\<close>: the ten characters of \<open>s\<close> from position
  \<open>i\<close> have it.
\<close>

definition date_shaped :: "str \<Rightarrow> bool" where
  "date_shaped t =
     (length t = 10 \<and> (\<forall>k \<in> {0, 1, 2, 3, 5, 6, 8, 9}. is_digit (t ! k)) \<and>
      t ! 4 = code_point CHR ''-'' \<and> t ! 7 = code_point CHR ''-'')"

definition pattern_at :: "str \<Rightarrow> nat \<Rightarrow> bool" where
  "pattern_at s i = (i + 10 \<le> length s \<and> date_shaped (take 10 (drop i s)))"

definition year_field :: "str \<Rightarrow> nat" where
  "year_field t = int_of_digits (take 4 t)"

definition month_field :: "str \<Rightarrow> nat" where
  "month_field t = int_of_digits (take 2 (drop 5 t))"

definition day_field :: "str \<Rightarrow> nat" where
  "day_field t = int_of_digits (drop 8 t)"

text \<open>A date of the calendar, in the range of years that \<open>datetime\<close> covers.\<close>

definition calendar_valid :: "nat \<Rightarrow> nat \<Rightarrow> nat \<Rightarrow> bool" where
  "calendar_valid y m d =
     (1 \<le> y \<and> y \<le> 9999 \<and> 1 \<le> m \<and> m \<le> 12 \<and> 1 \<le> d \<and> d \<le> days_in_month y m)"

text \<open>
  The month and the day of a match are in plain digits: ASCII digits, except that the
  second digit of a day in the tens or twenties may be any decimal digit. The year may be
  in any decimal digits.
\<close>

definition plain_digit :: "int \<Rightarrow> bool" where
  "plain_digit c = in_class CHR ''0'' CHR ''9'' c"

definition plain_month_day :: "str \<Rightarrow> bool" where
  "plain_month_day t =
     (plain_digit (t ! 5) \<and> plain_digit (t ! 6) \<and> plain_digit (t ! 8) \<and>
      (plain_digit (t ! 9) \<or> in_class CHR ''1'' CHR ''2'' (t ! 8)))"

text \<open>The priority key that a match of the pattern stands for.\<close>

definition date_of_match :: "str \<Rightarrow> datetime" where
  "date_of_match t =
     (if plain_month_day t \<and> calendar_valid (year_field t) (month_field t) (day_field t)
      then mk_datetime (year_field t) (month_field t) (day_field t)
      else sentinel_date)"

text \<open>
  A folder name whose first date is in full-width digits (code points 65296 to 65305),
  followed by a date in ASCII digits: the full-width form of \<open>2015-01-01\<close>, then
  \<open>_2016-02-02\<close>.
\<close>

definition fullwidth_name :: str where
  "fullwidth_name =
     [65298, 65296, 65297, 65301, 45, 65296, 65297, 45, 65296, 65297] @
     code_points ''_2016-02-02''"

text \<open>The sort key of a folder.\<close>

definition folder_key :: "path \<Rightarrow> nat \<times> nat \<times> nat" where
  "folder_key p = date_key (extract_date_from_folder_name (code_points (path_name p)))"

text \<open>The batches that the loop of \<open>parse_doc\<close> goes through, in order.\<close>

definition batches :: "'a list \<Rightarrow> int \<Rightarrow> 'a list list" where
  "batches path_list batch_size =
     map (\<lambda>batch_idx. current_batch path_list batch_size (int batch_idx))
       [0..<nat (total_batches path_list batch_size)]"

text \<open>
  The number of items of the groups whose call of \<open>parse_doc\<close> raised: each such group
  leaves one event \<open>FolderError\<close> with the length of its filtered list.
\<close>

fun failed_count :: "event \<Rightarrow> nat" where
  "failed_count (FolderError name n) = n"
| "failed_count e = 0"

definition failed_items :: "event list \<Rightarrow> nat" where
  "failed_items tr = sum_list (map failed_count tr)"

text \<open>
  The folders that end otherwise than by "all documents already parsed": without any
  document, with the call of \<open>parse_doc\<close> returned, or with that call failed.
\<close>

fun reported :: "event \<Rightarrow> nat" where
  "reported (FolderEmpty name) = 1"
| "reported (FolderDone name) = 1"
| "reported (FolderError name n) = 1"
| "reported e = 0"

definition reported_folders :: "event list \<Rightarrow> nat" where
  "reported_folders tr = sum_list (map reported tr)"


text \<open>
  The events that the pipeline side (\<open>parse_doc\<close> and below) can log, and the relation
  between the world before and after a piece of it: the log is extended by such events and
  no regular file is lost.
\<close>

fun pipeline_event :: "event \<Rightarrow> bool" where
  "pipeline_event (FolderEmpty name) = False"
| "pipeline_event (FolderAllDone name) = False"
| "pipeline_event (FolderNeeds name n) = False"
| "pipeline_event (FolderDone name) = False"
| "pipeline_event (FolderError name n) = False"
| "pipeline_event e = True"

definition pipeline_step :: "world \<Rightarrow> world \<Rightarrow> bool" where
  "pipeline_step w w' \<longleftrightarrow>
     (\<exists>tr. trace w' = trace w @ tr \<and> (\<forall>e \<in> set tr. pipeline_event e)) \<and>
     (\<forall>p. is_file (fs w) p \<longrightarrow> is_file (fs w') p)"

fun world_of :: "'a outcome \<Rightarrow> 'a" where
  "world_of (Normal w) = w"
| "world_of (Raised e w) = w"

definition keeps_files :: "filesystem \<Rightarrow> filesystem \<Rightarrow> bool" where
  "keeps_files fa fb \<longleftrightarrow> (\<forall>p. is_file fa p \<longrightarrow> is_file fb p)"

definition keeping :: "(step \<times> bool \<times> (filesystem \<Rightarrow> exn + filesystem)) list \<Rightarrow> bool" where
  "keeping steps \<longleftrightarrow>
     (\<forall>(st, enabled, effect) \<in> set steps. \<forall>fa fb. effect fa = Inr fb \<longrightarrow> keeps_files fa fb)"




text \<open>
  The artifacts of a document that the configuration asks for, as paths:
  \<open>output_dir/name/vlm/name_layout.pdf\<close> and so on.
\<close>

definition artifacts :: "parsing_config \<Rightarrow> path \<Rightarrow> string \<Rightarrow> path list" where
  "artifacts cfg output_dir name =
     map (\<lambda>(enabled, ext). local_md_dir output_dir name @ [name @ ext])
       (filter fst
          [(f_draw_layout_bbox cfg, ''_layout.pdf''),
           (f_dump_orig_pdf cfg, ''_origin.pdf''),
           (f_dump_md cfg, ''.md''),
           (f_dump_content_list cfg, ''_content_list.json''),
           (f_dump_middle_json cfg, ''_middle.json''),
           (f_dump_model_output cfg, ''_model_output.txt'')])"

text \<open>
  Between the worlds \<open>w\<close> and \<open>w'\<close> the document \<open>name\<close> has been attempted and has come
  to an end: the log gained the line that its parsing starts, and either the line that
  it failed, or the line that it is done together with all its artifacts on disk.
\<close>

definition item_resolved :: "parsing_config \<Rightarrow> path \<Rightarrow> string \<Rightarrow> world \<Rightarrow> world \<Rightarrow> bool" where
  "item_resolved cfg output_dir name w w' \<longleftrightarrow>
     (\<exists>tr. trace w' = trace w @ tr \<and> Parsing name \<in> set tr \<and>
        (ParseFailed name \<in> set tr \<or>
         (Parsed name \<in> set tr \<and> (\<forall>a \<in> set (artifacts cfg output_dir name). is_file (fs w') a))))"

definition readable :: "env \<Rightarrow> path \<Rightarrow> bool" where
  "readable ev p = (read_fn ev p \<noteq> None)"

text \<open>One round of the loop of \<open>do_parse\<close>, and one round of the loop of \<open>parse_doc\<close>.\<close>

definition after_document :: "env \<Rightarrow> parsing_config \<Rightarrow> path \<Rightarrow> string \<Rightarrow> bytes \<Rightarrow> world \<Rightarrow> world" where
  "after_document ev cfg out name b w =
     (case run_steps (raises ev out name b) (document_steps cfg out name) (fs w) of
        Normal f1 \<Rightarrow> emit (Parsed name) (emit (Parsing name) w\<lparr>fs := f1\<rparr>)
      | Raised e f1 \<Rightarrow> emit (ParseFailed name) (emit (Parsing name) w\<lparr>fs := f1\<rparr>))"

definition after_batch :: "env \<Rightarrow> parsing_config \<Rightarrow> path list \<Rightarrow> path \<Rightarrow> int \<Rightarrow> nat \<Rightarrow> world \<Rightarrow> world outcome" where
  "after_batch ev cfg path_list out B i w =
     (case read_batch ev (current_batch path_list B (int i)) ([], [], w) of
        (ns, bs, w1) \<Rightarrow>
          (if ns = [] then Normal (emit (BatchSkipped i) w1)
           else (case do_parse ev cfg out ns bs (emit (BatchDispatched ns) w1) of
                   Raised e w2 \<Rightarrow> Raised e w2
                 | Normal w2 \<Rightarrow>
                     Normal (if int i < total_batches path_list B - 1
                             then emit (Sleep 2) w2 else w2))))"

text \<open>
  What the driver computes for a folder once its output folder is there: the filtered
  list, the number of skipped documents, and the counters after discovery and detection.
\<close>

definition filtered_of :: "filesystem \<Rightarrow> path \<Rightarrow> path \<Rightarrow> path list" where
  "filtered_of fs1 output_path subfolder =
     fst (filter_pdf_files fs1 (output_path @ [path_name subfolder]) (glob_pdf fs1 subfolder) ([], 0))"

definition skipped_of :: "filesystem \<Rightarrow> path \<Rightarrow> path \<Rightarrow> nat" where
  "skipped_of fs1 output_path subfolder =
     snd (filter_pdf_files fs1 (output_path @ [path_name subfolder]) (glob_pdf fs1 subfolder) ([], 0))"

definition counted :: "filesystem \<Rightarrow> path \<Rightarrow> path \<Rightarrow> stats \<Rightarrow> stats" where
  "counted fs1 output_path subfolder s =
     s\<lparr>total_pdfs := total_pdfs s + length (glob_pdf fs1 subfolder),
       total_skipped := total_skipped s + skipped_of fs1 output_path subfolder\<rparr>"

definition consistent :: "world \<times> stats \<Rightarrow> bool" where
  "consistent state \<longleftrightarrow>
     (case state of (w, s) \<Rightarrow>
        total_pdfs s = total_skipped s + total_processed s + failed_items (trace w))"

text \<open>The log and the counters of a run.\<close>

fun run_trace :: "run \<Rightarrow> event list" where
  "run_trace InputMissing = []"
| "run_trace (NoSubfolders w) = trace w"
| "run_trace (Aborted e w) = trace w"
| "run_trace (Completed w s k) = trace w"

fun run_stats :: "run \<Rightarrow> stats option" where
  "run_stats (Completed w s k) = Some s"
| "run_stats r = None"

text \<open>
  A concrete input. The configuration is the one of \<open>main\<close>. The tree has four folders:
  \<open>2022-06-01_B\<close> with one new document, \<open>2021-03-03_C\<close> whose only document has been
  parsed before, \<open>2020-01-01_A\<close> with one parsed and two new documents, and \<open>misc\<close>
  without a date and without documents. Every file can be read, and the analysis of the
  document \<open>b\<close> raises.
\<close>

definition example_config :: parsing_config where
  "example_config =
     \<lparr>backend = ''vlm-transformers'', start_page_id = 0, end_page_id = None,
      f_draw_layout_bbox = True, f_dump_md = True, f_dump_middle_json = True,
      f_dump_model_output = True, f_dump_orig_pdf = False, f_dump_content_list = True,
      unexpected_keywords = []\<rparr>"

definition example_tree :: filesystem where
  "example_tree =
     [([''in''], Directory),
      ([''in'', ''2020-01-01_A''], Directory),
      ([''in'', ''2020-01-01_A'', ''a.pdf''], RegularFile),
      ([''in'', ''2020-01-01_A'', ''b.pdf''], RegularFile),
      ([''in'', ''2020-01-01_A'', ''d.pdf''], RegularFile),
      ([''in'', ''2022-06-01_B''], Directory),
      ([''in'', ''2022-06-01_B'', ''c.pdf''], RegularFile),
      ([''in'', ''2021-03-03_C''], Directory),
      ([''in'', ''2021-03-03_C'', ''e.pdf''], RegularFile),
      ([''in'', ''misc''], Directory),
      ([''in'', ''misc'', ''notes.txt''], RegularFile),
      ([''out''], Directory),
      ([''out'', ''2020-01-01_A''], Directory),
      ([''out'', ''2020-01-01_A'', ''a''], Directory),
      ([''out'', ''2020-01-01_A'', ''a'', ''vlm''], Directory),
      ([''out'', ''2020-01-01_A'', ''a'', ''vlm'', ''a.md''], RegularFile),
      ([''out'', ''2021-03-03_C''], Directory),
      ([''out'', ''2021-03-03_C'', ''e''], Directory),
      ([''out'', ''2021-03-03_C'', ''e'', ''vlm''], Directory),
      ([''out'', ''2021-03-03_C'', ''e'', ''vlm'', ''e_middle.json''], RegularFile)]"

definition example_env :: env where
  "example_env =
     \<lparr>read_fn = (\<lambda>p. Some []),
      raises = (\<lambda>output_dir name pdf_bytes st. name = ''b'' \<and> st = Analyze)\<rparr>"

definition example_world :: world where
  "example_world = \<lparr>fs = example_tree, trace = []\<rparr>"

definition example_stats :: stats where
  "example_stats = \<lparr>total_pdfs = 0, total_skipped = 0, total_processed = 0, skipped_folders = 0\<rparr>"

text \<open>The same configuration with a keyword that \<open>parse_doc\<close> does not know.\<close>

definition example_bad_config :: parsing_config where
  "example_bad_config = example_config\<lparr>unexpected_keywords := [''dpi'']\<rparr>"






text \<open>
  The folders of a log in the order in which the driver is done with them, whatever the
  way: no document, all parsed before, call returned, or call failed.
\<close>

fun closed_name :: "event \<Rightarrow> string list" where
  "closed_name (FolderEmpty name) = [name]"
| "closed_name (FolderAllDone name) = [name]"
| "closed_name (FolderDone name) = [name]"
| "closed_name (FolderError name n) = [name]"
| "closed_name e = []"

definition closed_folders :: "event list \<Rightarrow> string list" where
  "closed_folders tr = concat (map closed_name tr)"

text \<open>
  The batches that a log shows as handed to \<open>do_parse\<close>, and the names under which the
  readable files of a batch are handed over.
\<close>

fun dispatched_names :: "event \<Rightarrow> string list list" where
  "dispatched_names (BatchDispatched ns) = [ns]"
| "dispatched_names e = []"

definition dispatched :: "event list \<Rightarrow> string list list" where
  "dispatched tr = concat (map dispatched_names tr)"

definition readable_names :: "env \<Rightarrow> path list \<Rightarrow> string list" where
  "readable_names ev ps = map (\<lambda>p. stem (path_name p)) (filter (readable ev) ps)"

section \<open>Date extraction\<close>

lemma ten_chars:
  assumes "length t = 10"
  obtains c0 c1 c2 c3 c4 c5 c6 c7 c8 c9
  where "t = [c0, c1, c2, c3, c4, c5, c6, c7, c8, c9 :: int]"
  using assms by (auto simp: length_Suc_conv eval_nat_numeral)

lemma dash_code: "code_point CHR ''-'' = 45"
  by (simp add: code_point_def)

lemma date_shaped_iff:
  "date_shaped t \<longleftrightarrow>
     (\<exists>y1 y2 y3 y4 m1 m2 d1 d2.
        t = [y1, y2, y3, y4, 45, m1, m2, 45, d1, d2] \<and>
        is_digit y1 \<and> is_digit y2 \<and> is_digit y3 \<and> is_digit y4 \<and>
        is_digit m1 \<and> is_digit m2 \<and> is_digit d1 \<and> is_digit d2)"
  (is "?L \<longleftrightarrow> ?R")
proof
  assume ?R
  then show ?L by (auto simp: date_shaped_def dash_code)
next
  assume L: ?L
  then have "length t = 10" by (simp add: date_shaped_def)
  then obtain c0 c1 c2 c3 c4 c5 c6 c7 c8 c9
    where "t = [c0, c1, c2, c3, c4, c5, c6, c7, c8, c9]"
    by (rule ten_chars)
  with L show ?R by (simp add: date_shaped_def dash_code)
qed

lemma match_here_length: "match_here p s \<Longrightarrow> length p \<le> length s"
  by (induction p s rule: match_here.induct) auto

lemma match_here_take:
  "match_here p s \<longleftrightarrow> length p \<le> length s \<and> match_here p (take (length p) s)"
  by (induction p s rule: match_here.induct) auto

lemma match_here_date_pattern: "match_here date_pattern s \<longleftrightarrow> pattern_at s 0"
proof (cases "10 \<le> length s")
  case False
  then show ?thesis
    using match_here_length [of date_pattern s]
    by (auto simp: pattern_at_def date_pattern_def)
next
  case True
  then have "length (take 10 s) = 10" by simp
  then obtain c0 c1 c2 c3 c4 c5 c6 c7 c8 c9
    where t: "take 10 s = [c0, c1, c2, c3, c4, c5, c6, c7, c8, c9]"
    by (rule ten_chars)
  have len: "length date_pattern = 10" by (simp add: date_pattern_def)
  have "match_here date_pattern s \<longleftrightarrow> match_here date_pattern (take 10 s)"
    using True match_here_take [of date_pattern s] len by simp
  also have "\<dots> \<longleftrightarrow> date_shaped (take 10 s)"
    unfolding t by (auto simp: date_pattern_def date_shaped_def)
  finally show ?thesis using True by (simp add: pattern_at_def)
qed

lemma pattern_at_Cons_Suc: "pattern_at (c # cs) (Suc i) = pattern_at cs i"
  by (auto simp: pattern_at_def)

lemma findall_dates_none: "(\<And>i. \<not> pattern_at s i) \<Longrightarrow> findall_dates s = []"
proof (induction s)
  case Nil
  then show ?case by simp
next
  case (Cons c cs)
  have "\<not> pattern_at cs i" for i
    using Cons.prems [of "Suc i"] by (simp add: pattern_at_Cons_Suc)
  then have "findall_dates cs = []" by (rule Cons.IH)
  moreover have "\<not> match_here date_pattern (c # cs)"
    using Cons.prems [of 0] by (simp add: match_here_date_pattern)
  ultimately show ?case by simp
qed

lemma findall_dates_first:
  "pattern_at s i \<Longrightarrow> (\<And>j. j < i \<Longrightarrow> \<not> pattern_at s j) \<Longrightarrow>
     \<exists>rest. findall_dates s = take 10 (drop i s) # rest"
proof (induction s arbitrary: i)
  case Nil
  then show ?case by (simp add: pattern_at_def)
next
  case (Cons c cs)
  show ?case
  proof (cases i)
    case 0
    with Cons.prems(1) have "match_here date_pattern (c # cs)"
      by (simp add: match_here_date_pattern)
    with 0 show ?thesis by simp
  next
    case (Suc i')
    with Cons.prems(2) [of 0] have "\<not> match_here date_pattern (c # cs)"
      by (simp add: match_here_date_pattern)
    moreover have "pattern_at cs i'"
      using Cons.prems(1) Suc by (simp add: pattern_at_Cons_Suc)
    moreover have "\<not> pattern_at cs j" if "j < i'" for j
      using Cons.prems(2) [of "Suc j"] that Suc by (simp add: pattern_at_Cons_Suc)
    ultimately show ?thesis using Cons.IH [of i'] Suc by auto
  qed
qed

text \<open>
  The ASCII digits are decimal digits with their usual readings; the dash and the space
  are no digits.
\<close>

lemma plain_digit_iff: "plain_digit c \<longleftrightarrow> 48 \<le> c \<and> c \<le> 57"
  by (simp add: plain_digit_def in_class_def code_point_def)

lemma plain_digit_value: "plain_digit c \<Longrightarrow> decimal_value c = Some (nat (c - 48))"
  by (simp add: plain_digit_iff decimal_value_def decimal_zeros_def)

lemma plain_digit_val: "plain_digit c \<Longrightarrow> digit_val c = nat (c - 48)"
  by (simp add: digit_val_def plain_digit_value)

lemma plain_is_digit: "plain_digit c \<Longrightarrow> is_digit c"
  by (simp add: is_digit_def plain_digit_value)

lemma dash_no_digit: "\<not> is_digit 45"
  by (simp add: is_digit_def decimal_value_def decimal_zeros_def)

lemma space_no_digit: "\<not> is_digit 32"
  by (simp add: is_digit_def decimal_value_def decimal_zeros_def)

lemma month_alternatives_two:
  "month_alternatives (a # b # r) =
     (if a = 49 \<and> 48 \<le> b \<and> b \<le> 50 then [(int_of_digits [a, b], r)] else []) @
     (if a = 48 \<and> 49 \<le> b \<and> b \<le> 57 then [(int_of_digits [a, b], r)] else []) @
     (if 49 \<le> a \<and> a \<le> 57 then [(int_of_digits [a], b # r)] else [])"
  by (simp add: month_alternatives_def in_class_def code_point_def)

lemma day_alternatives_two:
  "day_alternatives [a, b] =
     (if a = 51 \<and> 48 \<le> b \<and> b \<le> 49 then [(int_of_digits [a, b], [])] else []) @
     (if 49 \<le> a \<and> a \<le> 50 \<and> is_digit b then [(int_of_digits [a, b], [])] else []) @
     (if a = 48 \<and> 49 \<le> b \<and> b \<le> 57 then [(int_of_digits [a, b], [])] else []) @
     (if 49 \<le> a \<and> a \<le> 57 then [(int_of_digits [a], [b])] else []) @
     (if a = 32 \<and> 49 \<le> b \<and> b \<le> 57 then [(int_of_digits [b], [])] else [])"
  by (simp add: day_alternatives_def in_class_def code_point_def)

lemma int_of_two_plain:
  "plain_digit a \<Longrightarrow> plain_digit b \<Longrightarrow> int_of_digits [a, b] = 10 * nat (a - 48) + nat (b - 48)"
  by (simp add: int_of_digits_def plain_digit_val)

text \<open>
  On two digits followed by a dash, the month alternatives that can go on are the
  two-digit ones; they ask for ASCII digits and cover exactly the months 01 to 12.
\<close>

lemma month_part:
  assumes "is_digit a" "is_digit b"
  shows "concat (map (\<lambda>(m, r2). (case after_dash r2 of None \<Rightarrow> [] | Some r3 \<Rightarrow> F m r3))
            (month_alternatives (a # b # 45 # r)))
         = (if plain_digit a \<and> plain_digit b \<and>
               1 \<le> int_of_digits [a, b] \<and> int_of_digits [a, b] \<le> 12
            then F (int_of_digits [a, b]) r else [])"
proof -
  have b: "b \<noteq> 45" using assms(2) dash_no_digit by auto
  show ?thesis
  proof (cases "plain_digit a \<and> plain_digit b")
    case True
    then have v: "int_of_digits [a, b] = 10 * nat (a - 48) + nat (b - 48)"
      by (simp add: int_of_two_plain)
    from True have r: "48 \<le> a" "a \<le> 57" "48 \<le> b" "b \<le> 57"
      by (simp_all add: plain_digit_iff)
    show ?thesis
      unfolding month_alternatives_two v using True r b
      by (auto simp: after_dash_def dash_code)
  next
    case False
    then show ?thesis
      unfolding month_alternatives_two using b
      by (auto simp: after_dash_def dash_code plain_digit_iff)
  qed
qed

lemma days_in_month_le: "days_in_month y m \<le> 31"
  by (simp add: days_in_month_def)

lemma datetime_new_day_range: "d = 0 \<or> 32 \<le> d \<Longrightarrow> datetime_new y m d = Inl ValueError"
  using days_in_month_le [of y m] by (auto simp: datetime_new_def)

lemma day_part:
  assumes "is_digit a" "is_digit b"
  shows "(case map (\<lambda>(d, r4). (y, m, d, r4)) (day_alternatives [a, b]) of
            [] \<Rightarrow> Inl ValueError
          | (y, m, d, rest) # _ \<Rightarrow>
              (if rest \<noteq> [] then Inl ValueError else datetime_new y m d))
         = (if plain_digit a \<and> (plain_digit b \<or> 49 \<le> a \<and> a \<le> 50)
            then datetime_new y m (int_of_digits [a, b]) else Inl ValueError)"
proof -
  have a: "a \<noteq> 32" using assms(1) space_no_digit by auto
  show ?thesis
  proof (cases "plain_digit a")
    case False
    then show ?thesis
      unfolding day_alternatives_two using a
      by (auto simp: plain_digit_iff)
  next
    case pa: True
    then have ra: "48 \<le> a" "a \<le> 57" by (simp_all add: plain_digit_iff)
    show ?thesis
    proof (cases "49 \<le> a \<and> a \<le> 50")
      case True
      then show ?thesis
        unfolding day_alternatives_two using pa assms(2) by auto
    next
      case na: False
      show ?thesis
      proof (cases "plain_digit b")
        case False
        then show ?thesis
          unfolding day_alternatives_two using pa na a
          by (auto simp: plain_digit_iff)
      next
        case pb: True
        then have rb: "48 \<le> b" "b \<le> 57" by (simp_all add: plain_digit_iff)
        have v: "int_of_digits [a, b] = 10 * nat (a - 48) + nat (b - 48)"
          using pa pb by (rule int_of_two_plain)
        consider "a = 48" "b = 48" | "a = 48" "49 \<le> b" | "a = 51" "b \<le> 49" | "a = 51" "50 \<le> b"
          | "52 \<le> a"
          using ra rb na by linarith
        then show ?thesis
        proof cases
          case 1
          then show ?thesis
            unfolding day_alternatives_two v using pa pb
            by (simp add: datetime_new_day_range)
        next
          case 2
          then show ?thesis
            unfolding day_alternatives_two v using pa pb rb
            by simp
        next
          case 3
          then show ?thesis
            unfolding day_alternatives_two v using pa pb rb
            by simp
        next
          case 4
          then show ?thesis
            unfolding day_alternatives_two v using pa pb rb
            by (simp add: datetime_new_day_range)
        next
          case 5
          then have "32 \<le> 10 * nat (a - 48) + nat (b - 48)" by linarith
          then have "datetime_new y m (10 * nat (a - 48) + nat (b - 48)) = Inl ValueError"
            by (intro datetime_new_day_range) simp
          then show ?thesis
            unfolding day_alternatives_two v using 5 pa pb ra rb
            by simp
        qed
      qed
    qed
  qed
qed

lemma strptime_date_shaped:
  assumes "date_shaped t"
  shows "strptime_Ymd t =
     (if plain_month_day t then datetime_new (year_field t) (month_field t) (day_field t)
      else Inl ValueError)"
proof -
  from assms obtain y1 y2 y3 y4 m1 m2 d1 d2 where
    t: "t = [y1, y2, y3, y4, 45, m1, m2, 45, d1, d2]" and
    y: "is_digit y1" "is_digit y2" "is_digit y3" "is_digit y4" and
    m: "is_digit m1" "is_digit m2" and d: "is_digit d1" "is_digit d2"
    by (auto simp: date_shaped_iff)
  have fm: "format_matches t =
      (if plain_digit m1 \<and> plain_digit m2 \<and>
          1 \<le> int_of_digits [m1, m2] \<and> int_of_digits [m1, m2] \<le> 12
       then map (\<lambda>(dd, r4). (int_of_digits [y1, y2, y3, y4], int_of_digits [m1, m2], dd, r4))
              (day_alternatives [d1, d2])
       else [])"
    unfolding t format_matches_def using y
    by (simp add: month_part [OF m]
        after_dash_def [of "45 # m1 # m2 # 45 # [d1, d2]"] dash_code)
  have pmd: "plain_month_day t \<longleftrightarrow>
      plain_digit m1 \<and> plain_digit m2 \<and> plain_digit d1 \<and> (plain_digit d2 \<or> 49 \<le> d1 \<and> d1 \<le> 50)"
    by (simp add: t plain_month_day_def in_class_def code_point_def)
  show ?thesis
  proof (cases "plain_digit m1 \<and> plain_digit m2 \<and>
      1 \<le> int_of_digits [m1, m2] \<and> int_of_digits [m1, m2] \<le> 12")
    case True
    then show ?thesis
      unfolding strptime_Ymd_def fm pmd using day_part [OF d]
      by (auto simp add: t year_field_def month_field_def day_field_def)
  next
    case False
    then show ?thesis
      unfolding strptime_Ymd_def fm pmd
      by (auto simp add: t year_field_def month_field_def day_field_def datetime_new_def)
  qed
qed

lemma extract_of_first:
  assumes "findall_dates s = t # rest" "date_shaped t"
  shows "extract_date_from_folder_name s = date_of_match t"
  using assms
  by (simp add: extract_date_from_folder_name_def strptime_date_shaped date_of_match_def
      datetime_new_def calendar_valid_def)

text \<open>
  The first match is not returned whenever it is a date of the calendar: \<open>\d\<close> of the
  pattern accepts digits that the month and day alternatives of \<open>strptime\<close> refuse. The
  name \<open>fullwidth_name\<close> starts with a match of the pattern that reads as the date
  2015-01-01 of the calendar, and the function returns the sentinel, not that date and
  not the date in ASCII digits that follows.
\<close>

theorem fullwidth_date_gives_sentinel:
  "pattern_at fullwidth_name 0 \<and>
   year_field (take 10 fullwidth_name) = 2015 \<and>
   month_field (take 10 fullwidth_name) = 1 \<and>
   day_field (take 10 fullwidth_name) = 1 \<and>
   calendar_valid 2015 1 1 \<and>
   pattern_at fullwidth_name 11 \<and>
   date_of_match (take 10 (drop 11 fullwidth_name)) = mk_datetime 2016 2 2 \<and>
   extract_date_from_folder_name fullwidth_name = sentinel_date \<and>
   sentinel_date \<noteq> mk_datetime 2015 1 1 \<and>
   sentinel_date \<noteq> mk_datetime 2016 2 2"
  by code_simp

text \<open>
  C5, as amended. For every folder name, a list of code points: when no position of the
  name carries the pattern \<open>YYYY-MM-DD\<close> (decimal digits of any script), the function
  returns the sentinel 1900-01-01. When some position does, the leftmost match decides
  alone, whatever follows in the name: the function returns its date when the month and
  the day are in plain digits and the match is a date of the calendar, and the sentinel
  in every other case. The function returns a datetime in every case: the \<open>ValueError\<close>
  of \<open>strptime\<close> is the only exception of its body and its handler turns it into the
  sentinel.
\<close>

theorem extract_date_first_match:
  "((\<forall>i. \<not> pattern_at s i) \<longrightarrow> extract_date_from_folder_name s = sentinel_date) \<and>
   (pattern_at s i \<and> (\<forall>j<i. \<not> pattern_at s j) \<longrightarrow>
      extract_date_from_folder_name s = date_of_match (take 10 (drop i s)))"
proof (intro conjI impI)
  assume "\<forall>i. \<not> pattern_at s i"
  then have "findall_dates s = []" by (intro findall_dates_none) simp
  then show "extract_date_from_folder_name s = sentinel_date"
    by (simp add: extract_date_from_folder_name_def)
next
  assume a: "pattern_at s i \<and> (\<forall>j<i. \<not> pattern_at s j)"
  then obtain rest where "findall_dates s = take 10 (drop i s) # rest"
    using findall_dates_first [of s i] by blast
  moreover have "date_shaped (take 10 (drop i s))"
    using a by (simp add: pattern_at_def)
  ultimately show "extract_date_from_folder_name s = date_of_match (take 10 (drop i s))"
    by (rule extract_of_first)
qed

theorem extract_date_first_match_witness:
  "extract_date_from_folder_name (code_points ''no-date'') = sentinel_date \<and>
   extract_date_from_folder_name (code_points ''2015-01-01_2015-03-31_MNSC'')
     = mk_datetime 2015 1 1 \<and>
   extract_date_from_folder_name (code_points ''2099-13-40_bad'') = sentinel_date \<and>
   extract_date_from_folder_name (code_points ''x_2015-01-1'' @ [65301])
     = mk_datetime 2015 1 15"
proof -
  have none: "\<forall>i. \<not> pattern_at (code_points ''no-date'') i"
    by (simp add: pattern_at_def code_points_def)
  have q1: "pattern_at (code_points ''2015-01-01_2015-03-31_MNSC'') 0"
    by code_simp
  have q2: "pattern_at (code_points ''2099-13-40_bad'') 0"
    by code_simp
  have q3: "pattern_at (code_points ''x_2015-01-1'' @ [65301]) 2"
    by code_simp
  have n3: "\<not> pattern_at (code_points ''x_2015-01-1'' @ [65301]) 0"
    "\<not> pattern_at (code_points ''x_2015-01-1'' @ [65301]) 1"
    by code_simp+
  have l3: "\<forall>j<2. \<not> pattern_at (code_points ''x_2015-01-1'' @ [65301]) j"
    using n3 by (simp add: less_Suc_eq numeral_2_eq_2)
  have d1: "date_of_match (take 10 (drop 0 (code_points ''2015-01-01_2015-03-31_MNSC'')))
      = mk_datetime 2015 1 1"
    by code_simp
  have d2: "date_of_match (take 10 (drop 0 (code_points ''2099-13-40_bad''))) = sentinel_date"
    by code_simp
  have d3: "date_of_match (take 10 (drop 2 (code_points ''x_2015-01-1'' @ [65301])))
      = mk_datetime 2015 1 15"
    by code_simp
  have r0: "extract_date_from_folder_name (code_points ''no-date'') = sentinel_date"
    using extract_date_first_match [of "code_points ''no-date''" 0] none by blast
  have r1: "extract_date_from_folder_name (code_points ''2015-01-01_2015-03-31_MNSC'')
      = mk_datetime 2015 1 1"
    using extract_date_first_match [of "code_points ''2015-01-01_2015-03-31_MNSC''" 0] q1 d1
    by simp
  have r2: "extract_date_from_folder_name (code_points ''2099-13-40_bad'') = sentinel_date"
    using extract_date_first_match [of "code_points ''2099-13-40_bad''" 0] q2 d2
    by simp
  have r3: "extract_date_from_folder_name (code_points ''x_2015-01-1'' @ [65301])
      = mk_datetime 2015 1 15"
    using extract_date_first_match [of "code_points ''x_2015-01-1'' @ [65301]" 2] q3 l3
    unfolding d3 by blast
  from r0 r1 r2 r3 show ?thesis by blast
qed

section \<open>Folder ordering\<close>

lemma insort_key_map:
  "insort_key f (h x) (map h xs) = map h (insort_key (\<lambda>a. f (h a)) x xs)"
  by (induction xs) auto

lemma sort_key_map: "sort_key f (map h xs) = map h (sort_key (\<lambda>a. f (h a)) xs)"
  by (induction xs) (auto simp: insort_key_map)

lemma sort_reverse_map: "sort_reverse f (map h xs) = map h (sort_reverse (\<lambda>a. f (h a)) xs)"
  by (simp add: sort_reverse_def sort_key_map rev_map)

lemma sort_folders_eq: "sort_folders_by_date_desc ps = sort_reverse folder_key ps"
proof -
  have "folder_key = (\<lambda>a. date_key (extract_date_from_folder_name (code_points (path_name a))))"
    by (rule ext) (simp add: folder_key_def)
  then show ?thesis
    by (simp add: sort_folders_by_date_desc_def sort_reverse_map o_def)
qed

lemma sort_reverse_sorted: "sorted (rev (map f (sort_reverse f xs)))"
  by (simp add: sort_reverse_def rev_map)

lemma sort_reverse_mset: "mset (sort_reverse f xs) = mset xs"
  by (simp add: sort_reverse_def)

lemma sort_reverse_stable:
  "filter (\<lambda>x. f x = k) (sort_reverse f xs) = filter (\<lambda>x. f x = k) xs"
  by (simp add: sort_reverse_def sort_key_stable flip: rev_filter)

lemma sort_reverse_idem: "sort_reverse f (sort_reverse f xs) = sort_reverse f xs"
  by (simp add: sort_reverse_def sort_key_id_if_sorted)

text \<open>
  What the order does give: of two folders in the result, the one with the later key
  comes first. So a folder without a date comes after every folder dated after
  1900-01-01.
\<close>

lemma later_date_comes_first:
  assumes "i < length (sort_folders_by_date_desc ps)" "j < length (sort_folders_by_date_desc ps)"
    and "folder_key (sort_folders_by_date_desc ps ! i) < folder_key (sort_folders_by_date_desc ps ! j)"
  shows "j < i"
proof (rule ccontr)
  let ?out = "sort_folders_by_date_desc ps"
  assume "\<not> j < i"
  then have le: "i \<le> j" by simp
  have "sorted (rev (map folder_key ?out))"
    by (simp add: sort_folders_eq sort_reverse_sorted)
  then have "map folder_key ?out ! j \<le> map folder_key ?out ! i"
    using le assms(2) by (simp add: sorted_rev_iff_nth_mono)
  then have "folder_key (?out ! j) \<le> folder_key (?out ! i)"
    using assms(1,2) by simp
  with assms(3) show False by simp
qed

lemma priority_example:
  "sort_folders_by_date_desc
     [ [''in'', ''2020-01-01_A''], [''in'', ''2022-06-01_B''], [''in'', ''no_date_C''] ]
   = [ [''in'', ''2022-06-01_B''], [''in'', ''2020-01-01_A''], [''in'', ''no_date_C''] ]"
  by code_simp

text \<open>
  C6. Every folder whose name gives the sentinel key should come after every folder whose
  name gives a parsed date; the comment and the warning of the code say so too. The code
  does not do it for dates before 1900: the folder \<open>1850-01-01_A\<close> is parsed to the date
  1850-01-01, the folder \<open>no_date_B\<close> gets the sentinel 1900-01-01, and the descending
  sort puts \<open>no_date_B\<close> first.
\<close>

theorem sentinel_before_dated:
  "extract_date_from_folder_name (code_points ''1850-01-01_A'') = mk_datetime 1850 1 1 \<and>
   extract_date_from_folder_name (code_points ''no_date_B'') = sentinel_date \<and>
   sort_folders_by_date_desc [ [''in'', ''1850-01-01_A''], [''in'', ''no_date_B''] ]
     = [ [''in'', ''no_date_B''], [''in'', ''1850-01-01_A''] ]"
  by code_simp

text \<open>
  C7. The result of \<open>sort_folders_by_date_desc\<close> is in descending order of the extracted
  dates and is a rearrangement of the input; the sort is stable, that is, for every key
  the folders with that key come out in the order they came in; and sorting the result
  again gives the same list, so a second application changes nothing. The function
  depends on nothing but its input list.
\<close>

theorem sort_folders_stable:
  "sorted (rev (map folder_key (sort_folders_by_date_desc ps))) \<and>
   mset (sort_folders_by_date_desc ps) = mset ps \<and>
   (\<forall>k. filter (\<lambda>p. folder_key p = k) (sort_folders_by_date_desc ps)
        = filter (\<lambda>p. folder_key p = k) ps) \<and>
   sort_folders_by_date_desc (sort_folders_by_date_desc ps) = sort_folders_by_date_desc ps"
  by (simp add: sort_folders_eq sort_reverse_sorted sort_reverse_mset sort_reverse_stable
      sort_reverse_idem)

section \<open>Batches\<close>

lemma clip_index_nat: "clip_index n (int m) = min n m"
  by (simp add: clip_index_def)

lemma current_batch_take_drop:
  assumes "0 < B"
  shows "current_batch xs B (int i) = take (nat B) (drop (i * nat B) xs)"
proof -
  obtain b where b: "B = int b" "0 < b" using assms by (metis zero_less_imp_eq_int)
  have s: "int i * B = int (i * b)" by (simp add: b)
  have e0: "int (i * b) + B = int (i * b + b)" by (simp add: b)
  have e: "min (int (i * b) + B) (int (length xs)) = int (min (i * b + b) (length xs))"
    unfolding e0 by (simp add: min_def del: of_nat_add of_nat_mult)
  show ?thesis
    unfolding current_batch_def py_slice_def Let_def s e clip_index_nat
    by (cases "i * b \<le> length xs") (auto simp: b min_def)
qed

lemma concat_take_drop:
  "concat (map (\<lambda>i. take b (drop (i * b) xs)) [0..<k]) = take (k * b) xs"
proof (induction k)
  case 0
  then show ?case by simp
next
  case (Suc k)
  have "Suc k * b = k * b + b" by simp
  then have "take (Suc k * b) xs = take (k * b) xs @ take b (drop (k * b) xs)"
    by (simp only: take_add)
  with Suc show ?case by simp
qed

lemma nat_total_batches:
  assumes "0 < b"
  shows "nat (total_batches xs (int b)) = (length xs + b - 1) div b"
proof -
  have "int (length xs) + int b - 1 = int (length xs + b - 1)" using assms by simp
  then show ?thesis
    unfolding total_batches_def by (simp add: zdiv_int [symmetric] del: of_nat_add of_nat_diff)
qed

lemma ceil_div_upper: "0 < b \<Longrightarrow> (n::nat) \<le> ((n + b - 1) div b) * b"
proof -
  assume b: "0 < b"
  have "n + b - 1 = ((n + b - 1) div b) * b + (n + b - 1) mod b" by simp
  moreover have "(n + b - 1) mod b < b" using b by simp
  ultimately show ?thesis by linarith
qed

lemma ceil_div_lower: "0 < b \<Longrightarrow> 0 < (n::nat) \<Longrightarrow> ((n + b - 1) div b - 1) * b < n"
proof -
  assume b: "0 < b" and n: "0 < n"
  have "((n + b - 1) div b) * b \<le> n + b - 1" by simp
  then have "((n + b - 1) div b) * b - b < n" using b n by linarith
  then show ?thesis by (simp add: diff_mult_distrib)
qed

lemma ceil_div_real:
  assumes "0 < b"
  shows "int ((n + b - 1) div b) = \<lceil>real n / real b\<rceil>"
proof (cases "n = 0")
  case True
  then show ?thesis using assms by simp
next
  case False
  let ?k = "(n + b - 1) div b"
  have u: "n \<le> ?k * b" using assms by (rule ceil_div_upper)
  have l: "(?k - 1) * b < n" using assms False by (intro ceil_div_lower) auto
  have kpos: "0 < ?k" using u False by (cases "?k") auto
  have "real n \<le> real ?k * real b" using u by (metis of_nat_le_iff of_nat_mult)
  then have up: "real n / real b \<le> real ?k" using assms by (simp add: field_simps)
  have "real (?k - 1) * real b < real n" using l by (metis of_nat_less_iff of_nat_mult)
  then have lo: "real ?k - 1 < real n / real b" using assms kpos by (simp add: field_simps of_nat_diff)
  show ?thesis
    using up lo by (intro ceiling_unique [symmetric]) auto
qed


lemma ceil_div_cases:
  assumes "0 < b"
  shows "(n + b - 1) div b = (if n mod b = 0 then n div b else Suc (n div b))"
proof -
  define q where "q = n div b"
  define r where "r = n mod b"
  have n: "n = b * q + r" by (simp add: q_def r_def)
  have r: "r < b" using assms by (simp add: r_def)
  have s1: "b * Suc q = b * q + b" and s2: "b * Suc (Suc q) = b * q + b + b" by simp_all
  show ?thesis
  proof (cases "r = 0")
    case True
    have "b * q \<le> n + b - 1" using n assms by linarith
    moreover have "n + b - 1 < b * Suc q" using n True assms s1 by linarith
    ultimately have "(n + b - 1) div b = q" by (rule div_nat_eqI)
    then show ?thesis using True by (simp add: q_def r_def)
  next
    case False
    have "b * Suc q \<le> n + b - 1" using n False s1 by linarith
    moreover have "n + b - 1 < b * Suc (Suc q)" using n r s2 by linarith
    ultimately have "(n + b - 1) div b = Suc q" by (rule div_nat_eqI)
    then show ?thesis using False by (simp add: q_def r_def)
  qed
qed

lemma length_batches:
  assumes "0 < b"
  shows "length (batches xs (int b)) = (length xs + b - 1) div b"
  by (simp add: batches_def nat_total_batches [OF assms])

lemma nth_batches:
  assumes "0 < b" "i < length (batches xs (int b))"
  shows "batches xs (int b) ! i = take b (drop (i * b) xs)"
  using assms by (simp add: batches_def current_batch_take_drop)

lemma batch_sizes:
  assumes b: "0 < b" and i: "i < length (batches xs (int b))"
  shows "length (batches xs (int b) ! i) =
     (if Suc i < length (batches xs (int b)) then b
      else if length xs mod b = 0 then b else length xs mod b)"
proof -
  let ?n = "length xs"
  let ?k = "(?n + b - 1) div b"
  have k: "length (batches xs (int b)) = ?k" using b by (rule length_batches)
  have len: "length (batches xs (int b) ! i) = min b (?n - i * b)"
    using nth_batches [OF b i] by (simp add: min.commute)
  have npos: "0 < ?n" using i k b by (cases "?n = 0") auto
  have n: "?n = b * (?n div b) + ?n mod b" by simp
  show ?thesis
  proof (cases "Suc i < ?k")
    case True
    then have "Suc i \<le> ?k - 1" by simp
    then have "Suc i * b \<le> (?k - 1) * b" by (rule mult_le_mono1)
    also have "\<dots> < ?n" using b npos by (rule ceil_div_lower)
    finally have "i * b + b \<le> ?n" by simp
    then show ?thesis using True len k by (simp add: min_def)
  next
    case False
    then have ik: "Suc i = ?k" using i k by simp
    show ?thesis
    proof (cases "?n mod b = 0")
      case True
      then have "?k = ?n div b" using ceil_div_cases [OF b, of ?n] by simp
      then have "Suc i * b = ?n" using ik True by (metis mult.commute mult_div_mod_eq add.right_neutral)
      then have "?n - i * b = b" by simp
      then show ?thesis using False len k True by simp
    next
      case nz: False
      then have "?k = Suc (?n div b)" using ceil_div_cases [OF b, of ?n] by simp
      then have "i = ?n div b" using ik by simp
      then have "?n - i * b = ?n mod b" by (metis minus_mult_div_eq_mod mult.commute)
      moreover have "?n mod b < b" using b by simp
      ultimately show ?thesis using False len k nz by (simp add: min_def)
    qed
  qed
qed

lemma batches_partition:
  assumes "0 < B"
  shows "int (length (batches xs B)) = \<lceil>real (length xs) / real_of_int B\<rceil> \<and>
         concat (batches xs B) = xs \<and>
         (\<forall>i < length (batches xs B).
            length (batches xs B ! i) =
              (if Suc i < length (batches xs B) then nat B
               else if length xs mod nat B = 0 then nat B else length xs mod nat B))"
proof -
  obtain b where B: "B = int b" and b: "0 < b"
    using assms by (metis zero_less_imp_eq_int)
  have k: "length (batches xs B) = (length xs + b - 1) div b"
    unfolding B using b by (rule length_batches)
  have "int (length (batches xs B)) = \<lceil>real (length xs) / real b\<rceil>"
    unfolding k using b by (rule ceil_div_real)
  then have c1: "int (length (batches xs B)) = \<lceil>real (length xs) / real_of_int B\<rceil>"
    by (simp add: B)
  have "batches xs B = map (\<lambda>i. take b (drop (i * b) xs)) [0..<(length xs + b - 1) div b]"
    unfolding batches_def B nat_total_batches [OF b]
    using current_batch_take_drop [of "int b" xs] b by simp
  then have "concat (batches xs B) = take (((length xs + b - 1) div b) * b) xs"
    by (simp only: concat_take_drop)
  then have c2: "concat (batches xs B) = xs"
    using ceil_div_upper [OF b, of "length xs"] by simp
  have c3: "\<forall>i < length (batches xs B).
            length (batches xs B ! i) =
              (if Suc i < length (batches xs B) then nat B
               else if length xs mod nat B = 0 then nat B else length xs mod nat B)"
    using batch_sizes [OF b, of _ xs] by (simp add: B)
  from c1 c2 c3 show ?thesis by blast
qed

section \<open>Completion detection\<close>

lemma has_result_file_iff:
  "has_result_file fs0 ps \<longleftrightarrow>
     (\<exists>f \<in> set ps. is_file fs0 f \<and> suffix (path_name f) \<in> set result_suffixes)"
  by (induction ps) auto

lemma is_file_in_children:
  assumes "is_file fs0 (d @ [name])"
  shows "d @ [name] \<in> set (children fs0 d)"
proof -
  from assms have "map_of fs0 (d @ [name]) = Some RegularFile"
    by (simp add: is_file_def fs_lookup_def)
  then have "d @ [name] \<in> set (map fst fs0)"
    by (auto dest!: map_of_SomeD intro: rev_image_eqI)
  then show ?thesis by (simp add: children_def)
qed

lemma children_snoc:
  assumes "f \<in> set (children fs0 d)"
  shows "f = d @ [path_name f]"
proof -
  from assms have "f \<noteq> []" "butlast f = d" by (auto simp: children_def)
  then show ?thesis using append_butlast_last_id [of f] by (simp add: path_name_def)
qed

lemma path_name_snoc: "path_name (d @ [name]) = name"
  by (simp add: path_name_def)

lemma has_results_iff:
  "has_results fs0 d \<longleftrightarrow>
     is_dir fs0 (d @ [''vlm'']) \<and>
     (\<exists>name. is_file fs0 (d @ [''vlm'', name]) \<and> suffix name \<in> set result_suffixes)"
  (is "?L \<longleftrightarrow> ?R")
proof
  assume ?L
  then have dir: "is_dir fs0 (d @ [''vlm''])"
    and "has_result_file fs0 (children fs0 (d @ [''vlm'']))"
    by (auto simp: has_results_def Let_def split: if_splits)
  then obtain f where f: "f \<in> set (children fs0 (d @ [''vlm'']))" "is_file fs0 f"
    "suffix (path_name f) \<in> set result_suffixes"
    by (auto simp: has_result_file_iff)
  from children_snoc [OF f(1)] have "f = d @ [''vlm'', path_name f]" by simp
  with f dir show ?R by metis
next
  assume ?R
  then obtain name where dir: "is_dir fs0 (d @ [''vlm''])"
    and n: "is_file fs0 (d @ [''vlm'', name])" "suffix name \<in> set result_suffixes"
    by blast
  from n(1) have "is_file fs0 ((d @ [''vlm'']) @ [name])" by simp
  then have "(d @ [''vlm'']) @ [name] \<in> set (children fs0 (d @ [''vlm'']))"
    by (rule is_file_in_children)
  with n have "has_result_file fs0 (children fs0 (d @ [''vlm'']))"
    unfolding has_result_file_iff using path_name_snoc [of "d @ [''vlm'']" name] by force
  moreover have "path_exists fs0 (d @ [''vlm''])"
    using dir by (simp add: is_dir_def path_exists_def)
  ultimately show ?L using dir by (simp add: has_results_def)
qed

lemma is_dir_exists: "is_dir fs0 p \<Longrightarrow> path_exists fs0 p"
  by (simp add: is_dir_def path_exists_def)

lemma filter_pdf_files_acc:
  "filter_pdf_files fs0 out ps (acc, k) =
     (acc @ filter (\<lambda>p. \<not> already_parsed fs0 out p) ps,
      k + length (filter (already_parsed fs0 out) ps))"
  by (induction ps arbitrary: acc k) auto

text \<open>
  C3. A document is classified as already parsed exactly when its output directory
  \<open>output_subfolder/stem\<close> is a directory, the \<open>vlm\<close> directory below it is a directory,
  and that directory holds a regular file whose suffix is \<open>.md\<close>, \<open>.json\<close> or \<open>.txt\<close>.
  The loop keeps, in their order, exactly the documents that are not so classified (they
  go on to be parsed) and counts the others as skipped; so a document whose output
  directory exists while its \<open>vlm\<close> directory is missing or holds no such file is kept.
\<close>

theorem completion_detection:
  "(already_parsed fs0 output_subfolder pdf_file \<longleftrightarrow>
      is_dir fs0 (output_subfolder @ [stem (path_name pdf_file)]) \<and>
      is_dir fs0 (output_subfolder @ [stem (path_name pdf_file), ''vlm'']) \<and>
      (\<exists>name. is_file fs0 (output_subfolder @ [stem (path_name pdf_file), ''vlm'', name]) \<and>
              suffix name \<in> {''.md'', ''.json'', ''.txt''})) \<and>
   filter_pdf_files fs0 output_subfolder pdf_files ([], 0) =
     (filter (\<lambda>p. \<not> already_parsed fs0 output_subfolder p) pdf_files,
      length (filter (already_parsed fs0 output_subfolder) pdf_files))"
proof -
  have "already_parsed fs0 output_subfolder pdf_file \<longleftrightarrow>
      is_dir fs0 (output_subfolder @ [stem (path_name pdf_file)]) \<and>
      has_results fs0 (output_subfolder @ [stem (path_name pdf_file)])"
    using is_dir_exists by (auto simp: already_parsed_def Let_def)
  then show ?thesis
    by (simp add: has_results_iff filter_pdf_files_acc result_suffixes_def)
qed

lemma resume_example:
  "already_parsed [([''O'', ''G'', ''N'', ''vlm'', ''N.md''], RegularFile),
                   ([''O'', ''G'', ''N'', ''vlm''], Directory), ([''O'', ''G'', ''N''], Directory),
                   ([''O'', ''G''], Directory), ([''O''], Directory)]
     [''O'', ''G''] [''R'', ''G'', ''N.pdf''] \<and>
   \<not> already_parsed [([''O'', ''G'', ''N'', ''vlm''], Directory), ([''O'', ''G'', ''N''], Directory),
                   ([''O'', ''G''], Directory), ([''O''], Directory)]
     [''O'', ''G''] [''R'', ''G'', ''N.pdf''] \<and>
   \<not> already_parsed [([''O'', ''G'', ''N''], Directory),
                   ([''O'', ''G''], Directory), ([''O''], Directory)]
     [''O'', ''G''] [''R'', ''G'', ''N.pdf'']"
  by code_simp

section \<open>No step of the pipeline loses a file\<close>

lemma keeps_files_refl: "keeps_files f f"
  by (simp add: keeps_files_def)

lemma keeps_files_trans: "keeps_files fa fb \<Longrightarrow> keeps_files fb fc \<Longrightarrow> keeps_files fa fc"
  by (simp add: keeps_files_def)

lemma keeps_files_Cons: "fs_lookup f p = None \<Longrightarrow> keeps_files f ((p, k) # f)"
  by (auto simp: keeps_files_def is_file_def fs_lookup_def)

lemma mkdir_keeps: "mkdir f p = Inr f' \<Longrightarrow> keeps_files f f'"
  by (auto simp: mkdir_def keeps_files_refl keeps_files_Cons split: option.splits kind.splits)

lemma makedirs_keeps: "makedirs f p = Inr f' \<Longrightarrow> keeps_files f f'"
proof (induction f p arbitrary: f' rule: makedirs.induct)
  case (1 f p)
  show ?case
  proof (cases "fs_lookup f p")
    case (Some k)
    with "1.prems" show ?thesis
      by (cases k) (simp_all add: makedirs.simps [of f p] keeps_files_refl)
  next
    case None
    show ?thesis
    proof (cases "fs_lookup f (butlast p)")
      case (Some k)
      with None "1.prems" show ?thesis
        by (cases k) (auto simp add: makedirs.simps [of f p] keeps_files_Cons)
    next
      case N2: None
      with None "1.prems" obtain f1 where f1: "makedirs f (butlast p) = Inr f1" "mkdir f1 p = Inr f'"
        by (auto simp add: makedirs.simps [of f p] split: sum.splits)
      from "1.IH" [OF None N2 f1(1)] mkdir_keeps [OF f1(2)] show ?thesis
        by (rule keeps_files_trans)
    qed
  qed
qed

lemma write_file_keeps: "write_file f p = Inr f' \<Longrightarrow> keeps_files f f'"
  unfolding write_file_def
  by (auto simp: keeps_files_refl split: if_splits sum.splits option.splits kind.splits
      intro: makedirs_keeps keeps_files_trans [OF makedirs_keeps keeps_files_Cons] keeps_files_Cons)

lemma write_file_is_file: "write_file f p = Inr f' \<Longrightarrow> is_file f' p"
  unfolding write_file_def
  by (auto simp: is_file_def fs_lookup_def split: if_splits sum.splits option.splits kind.splits)

lemma prepare_env_keeps: "prepare_env out name f = Inr f' \<Longrightarrow> keeps_files f f'"
  unfolding prepare_env_def
  by (auto split: sum.splits intro: keeps_files_trans [OF makedirs_keeps makedirs_keeps])

lemma keeping_Nil: "keeping []"
  by (simp add: keeping_def)

lemma keeping_Cons:
  "keeping ((st, enabled, effect) # rest) \<longleftrightarrow>
     (\<forall>fa fb. effect fa = Inr fb \<longrightarrow> keeps_files fa fb) \<and> keeping rest"
  by (auto simp: keeping_def)

lemma keeping_document_steps: "keeping (document_steps cfg out name)"
  unfolding document_steps_def Let_def keeping_Cons
  by (intro conjI allI impI keeping_Nil;
      (erule write_file_keeps | erule prepare_env_keeps | simp add: keeps_files_refl))

lemma run_steps_keeps:
  "keeping steps \<Longrightarrow> keeps_files f (world_of (run_steps bad steps f))"
proof (induction bad steps f rule: run_steps.induct)
  case (1 bad f)
  then show ?case by (simp add: keeps_files_refl)
next
  case (2 bad st enabled effect rest f)
  from "2.prems" have k: "keeping rest"
    and e: "\<And>fa fb. effect fa = Inr fb \<Longrightarrow> keeps_files fa fb"
    by (auto simp: keeping_Cons)
  show ?case
  proof (cases "\<not> enabled")
    case True
    then show ?thesis using "2.IH"(1) k by simp
  next
    case en: False
    show ?thesis
    proof (cases "bad st")
      case True
      then show ?thesis using en by (simp add: keeps_files_refl)
    next
      case nb: False
      show ?thesis
      proof (cases "effect f")
        case (Inl err)
        then show ?thesis using en nb by (simp add: keeps_files_refl)
      next
        case (Inr f1)
        from "2.IH"(2) [OF en nb Inr k] e [OF Inr] show ?thesis
          using en nb Inr by (simp add: keeps_files_trans)
      qed
    qed
  qed
qed

text \<open>When the block of a document runs to its end, every enabled step has had its effect.\<close>

lemma run_steps_effect:
  "keeping steps \<Longrightarrow> run_steps bad steps f = Normal f' \<Longrightarrow>
   (st, True, effect) \<in> set steps \<Longrightarrow>
   \<exists>fa fb. effect fa = Inr fb \<and> keeps_files fb f'"
proof (induction bad steps f rule: run_steps.induct)
  case (1 bad f)
  then show ?case by simp
next
  case (2 bad st0 enabled effect0 rest f)
  from "2.prems"(1) have k: "keeping rest" by (auto simp: keeping_Cons)
  show ?case
  proof (cases "\<not> enabled")
    case True
    with "2.prems" have "run_steps bad rest f = Normal f'" "(st, True, effect) \<in> set rest"
      by auto
    with "2.IH"(1) [OF True k] show ?thesis by blast
  next
    case en: False
    with "2.prems"(2) have nb: "\<not> bad st0" by (auto split: if_splits)
    with en "2.prems"(2) obtain f1 where f1: "effect0 f = Inr f1" "run_steps bad rest f1 = Normal f'"
      by (auto split: sum.splits)
    show ?thesis
    proof (cases "(st, True, effect) \<in> set rest")
      case True
      with "2.IH"(2) [OF en nb f1(1) k f1(2)] show ?thesis by blast
    next
      case False
      with "2.prems"(3) have eq: "effect0 = effect" by auto
      have "keeps_files f1 (world_of (run_steps bad rest f1))" using k by (rule run_steps_keeps)
      with f1 eq show ?thesis by auto
    qed
  qed
qed

lemma artifact_step:
  assumes "a \<in> set (artifacts cfg out name)"
  shows "\<exists>st. (st, True, \<lambda>fs0. write_file fs0 a) \<in> set (document_steps cfg out name)"
proof -
  let ?md = "local_md_dir out name"
  from assms consider
      "f_draw_layout_bbox cfg" "a = ?md @ [name @ ''_layout.pdf'']"
    | "f_dump_orig_pdf cfg" "a = ?md @ [name @ ''_origin.pdf'']"
    | "f_dump_md cfg" "a = ?md @ [name @ ''.md'']"
    | "f_dump_content_list cfg" "a = ?md @ [name @ ''_content_list.json'']"
    | "f_dump_middle_json cfg" "a = ?md @ [name @ ''_middle.json'']"
    | "f_dump_model_output cfg" "a = ?md @ [name @ ''_model_output.txt'']"
  proof -
    from assms obtain enabled ext where
      m: "(enabled, ext) \<in> set [(f_draw_layout_bbox cfg, ''_layout.pdf''),
           (f_dump_orig_pdf cfg, ''_origin.pdf''),
           (f_dump_md cfg, ''.md''),
           (f_dump_content_list cfg, ''_content_list.json''),
           (f_dump_middle_json cfg, ''_middle.json''),
           (f_dump_model_output cfg, ''_model_output.txt'')]"
      and en: "enabled" and a: "a = ?md @ [name @ ext]"
      unfolding artifacts_def set_map set_filter by force
    from m have "(enabled, ext) = (f_draw_layout_bbox cfg, ''_layout.pdf'') \<or>
        (enabled, ext) = (f_dump_orig_pdf cfg, ''_origin.pdf'') \<or>
        (enabled, ext) = (f_dump_md cfg, ''.md'') \<or>
        (enabled, ext) = (f_dump_content_list cfg, ''_content_list.json'') \<or>
        (enabled, ext) = (f_dump_middle_json cfg, ''_middle.json'') \<or>
        (enabled, ext) = (f_dump_model_output cfg, ''_model_output.txt'')"
      by (simp only: set_simps insert_iff empty_iff simp_thms)
    with en a that show ?thesis by (elim disjE) (simp_all only: prod.inject)
  qed
  then show ?thesis
  proof cases
    case 1
    then have "(DrawLayoutBbox, True, \<lambda>fs0. write_file fs0 a) \<in> set (document_steps cfg out name)"
      by (simp add: document_steps_def Let_def)
    then show ?thesis ..
  next
    case 2
    then have "(DumpOrigPdf, True, \<lambda>fs0. write_file fs0 a) \<in> set (document_steps cfg out name)"
      by (simp add: document_steps_def Let_def)
    then show ?thesis ..
  next
    case 3
    then have "(DumpMd, True, \<lambda>fs0. write_file fs0 a) \<in> set (document_steps cfg out name)"
      by (simp add: document_steps_def Let_def)
    then show ?thesis ..
  next
    case 4
    then have "(DumpContentList, True, \<lambda>fs0. write_file fs0 a) \<in> set (document_steps cfg out name)"
      by (simp add: document_steps_def Let_def)
    then show ?thesis ..
  next
    case 5
    then have "(DumpMiddleJson, True, \<lambda>fs0. write_file fs0 a) \<in> set (document_steps cfg out name)"
      by (simp add: document_steps_def Let_def)
    then show ?thesis ..
  next
    case 6
    then have "(DumpModelOutput, True, \<lambda>fs0. write_file fs0 a) \<in> set (document_steps cfg out name)"
      by (simp add: document_steps_def Let_def)
    then show ?thesis ..
  qed
qed

lemma artifacts_written:
  assumes "run_steps bad (document_steps cfg out name) f = Normal f'"
    and "a \<in> set (artifacts cfg out name)"
  shows "is_file f' a"
proof -
  from artifact_step [OF assms(2)] obtain st
    where "(st, True, \<lambda>fs0. write_file fs0 a) \<in> set (document_steps cfg out name)" ..
  from run_steps_effect [OF keeping_document_steps assms(1) this]
  obtain fa fb where "write_file fa a = Inr fb" "keeps_files fb f'" by blast
  then show ?thesis using write_file_is_file by (auto simp: keeps_files_def)
qed

section \<open>Every readable document is attempted\<close>

lemma pipeline_step_refl: "pipeline_step w w"
  by (simp add: pipeline_step_def)

lemma pipeline_step_trans:
  assumes "pipeline_step w1 w2" "pipeline_step w2 w3"
  shows "pipeline_step w1 w3"
proof -
  from assms obtain t1 t2 where
    t: "trace w2 = trace w1 @ t1" "trace w3 = trace w2 @ t2"
    "\<forall>e \<in> set t1. pipeline_event e" "\<forall>e \<in> set t2. pipeline_event e"
    by (auto simp: pipeline_step_def)
  then have "trace w3 = trace w1 @ (t1 @ t2) \<and> (\<forall>e \<in> set (t1 @ t2). pipeline_event e)"
    by auto
  then show ?thesis using assms by (auto simp: pipeline_step_def simp del: append_assoc)
qed

lemma pipeline_step_emit: "pipeline_event e \<Longrightarrow> pipeline_step w (emit e w)"
  by (simp add: pipeline_step_def emit_def)

lemma pipeline_step_fs: "keeps_files (fs w) f \<Longrightarrow> pipeline_step w (w\<lparr>fs := f\<rparr>)"
  by (simp add: pipeline_step_def keeps_files_def)

lemma pipeline_event_counts:
  "pipeline_event e \<Longrightarrow> failed_count e = 0 \<and> reported e = 0"
  by (cases e) simp_all

lemma pipeline_step_failed_items:
  "pipeline_step w w' \<Longrightarrow> failed_items (trace w') = failed_items (trace w)"
  by (auto simp: pipeline_step_def failed_items_def pipeline_event_counts)


lemma resolved_then_step:
  assumes "item_resolved cfg out name w w1" "pipeline_step w1 w2"
  shows "item_resolved cfg out name w w2"
proof -
  from assms(1) obtain t1 where t1: "trace w1 = trace w @ t1" "Parsing name \<in> set t1"
    "ParseFailed name \<in> set t1 \<or>
       (Parsed name \<in> set t1 \<and> (\<forall>a \<in> set (artifacts cfg out name). is_file (fs w1) a))"
    by (auto simp: item_resolved_def)
  from assms(2) obtain t2 where t2: "trace w2 = trace w1 @ t2"
    and k: "\<forall>p. is_file (fs w1) p \<longrightarrow> is_file (fs w2) p"
    by (auto simp: pipeline_step_def)
  have "trace w2 = trace w @ (t1 @ t2)" using t1(1) t2 by simp
  moreover have "Parsing name \<in> set (t1 @ t2)" using t1(2) by simp
  moreover have "ParseFailed name \<in> set (t1 @ t2) \<or>
       (Parsed name \<in> set (t1 @ t2) \<and> (\<forall>a \<in> set (artifacts cfg out name). is_file (fs w2) a))"
    using t1(3) k by auto
  ultimately show ?thesis unfolding item_resolved_def by blast
qed

lemma step_then_resolved:
  assumes "pipeline_step w w1" "item_resolved cfg out name w1 w2"
  shows "item_resolved cfg out name w w2"
proof -
  from assms(1) obtain t1 where t1: "trace w1 = trace w @ t1"
    by (auto simp: pipeline_step_def)
  from assms(2) obtain t2 where t2: "trace w2 = trace w1 @ t2" "Parsing name \<in> set t2"
    "ParseFailed name \<in> set t2 \<or>
       (Parsed name \<in> set t2 \<and> (\<forall>a \<in> set (artifacts cfg out name). is_file (fs w2) a))"
    by (auto simp: item_resolved_def)
  have "trace w2 = trace w @ (t1 @ t2)" using t1 t2(1) by simp
  moreover have "Parsing name \<in> set (t1 @ t2)" using t2(2) by simp
  moreover have "ParseFailed name \<in> set (t1 @ t2) \<or>
       (Parsed name \<in> set (t1 @ t2) \<and> (\<forall>a \<in> set (artifacts cfg out name). is_file (fs w2) a))"
    using t2(3) by auto
  ultimately show ?thesis unfolding item_resolved_def by blast
qed

lemma do_parse_loop_Cons:
  "idx < length names \<Longrightarrow>
   do_parse_loop ev cfg out names idx (b # rest) w =
     do_parse_loop ev cfg out names (Suc idx) rest (after_document ev cfg out (names ! idx) b w)"
  by (simp add: after_document_def Let_def emit_def split: outcome.splits)

lemma after_document_step: "pipeline_step w (after_document ev cfg out name b w)"
proof -
  let ?r = "run_steps (raises ev out name b) (document_steps cfg out name) (fs w)"
  have k: "keeps_files (fs w) (world_of ?r)"
    using keeping_document_steps by (rule run_steps_keeps)
  show ?thesis
  proof (cases ?r)
    case (Normal f1)
    with k show ?thesis
      by (simp add: after_document_def pipeline_step_def emit_def keeps_files_def)
  next
    case (Raised e f1)
    with k show ?thesis
      by (simp add: after_document_def pipeline_step_def emit_def keeps_files_def)
  qed
qed

lemma after_document_resolved: "item_resolved cfg out name w (after_document ev cfg out name b w)"
proof -
  let ?r = "run_steps (raises ev out name b) (document_steps cfg out name) (fs w)"
  show ?thesis
  proof (cases ?r)
    case (Normal f1)
    then have "\<forall>a \<in> set (artifacts cfg out name). is_file f1 a"
      using artifacts_written by blast
    with Normal show ?thesis
      unfolding item_resolved_def after_document_def
      by (intro exI [of _ "[Parsing name, Parsed name]"]) (simp add: emit_def)
  next
    case (Raised e f1)
    then show ?thesis
      unfolding item_resolved_def after_document_def
      by (intro exI [of _ "[Parsing name, ParseFailed name]"]) (simp add: emit_def)
  qed
qed

lemma do_parse_loop_resolved:
  "idx + length bs \<le> length names \<Longrightarrow>
   \<exists>w'. do_parse_loop ev cfg out names idx bs w = Normal w' \<and> pipeline_step w w' \<and>
        (\<forall>j < length bs. item_resolved cfg out (names ! (idx + j)) w w')"
proof (induction bs arbitrary: idx w)
  case Nil
  then show ?case by (simp add: pipeline_step_refl)
next
  case (Cons b rest)
  let ?w2 = "after_document ev cfg out (names ! idx) b w"
  from Cons.prems have idx: "idx < length names" and le: "Suc idx + length rest \<le> length names"
    by simp_all
  from Cons.IH [OF le, of ?w2] obtain w' where
    w': "do_parse_loop ev cfg out names (Suc idx) rest ?w2 = Normal w'"
    "pipeline_step ?w2 w'"
    "\<forall>j < length rest. item_resolved cfg out (names ! (Suc idx + j)) ?w2 w'"
    by blast
  have s: "pipeline_step w ?w2" by (rule after_document_step)
  have "item_resolved cfg out (names ! (idx + j)) w w'" if "j < length (b # rest)" for j
  proof (cases j)
    case 0
    have "item_resolved cfg out (names ! idx) w ?w2" by (rule after_document_resolved)
    then show ?thesis using w'(2) 0 by (auto intro: resolved_then_step)
  next
    case (Suc j')
    with that w'(3) have "item_resolved cfg out (names ! (Suc idx + j')) ?w2 w'" by simp
    with s show ?thesis using Suc by (auto intro: step_then_resolved)
  qed
  moreover have "pipeline_step w w'" using s w'(2) by (rule pipeline_step_trans)
  ultimately show ?case using w'(1) unfolding do_parse_loop_Cons [OF idx] by blast
qed

lemma do_parse_loop_step:
  "pipeline_step w (world_of (do_parse_loop ev cfg out names idx bs w))"
proof (induction bs arbitrary: idx w)
  case Nil
  then show ?case by (simp add: pipeline_step_refl)
next
  case (Cons b rest)
  show ?case
  proof (cases "idx < length names")
    case True
    have "pipeline_step w (after_document ev cfg out (names ! idx) b w)"
      by (rule after_document_step)
    moreover have "pipeline_step (after_document ev cfg out (names ! idx) b w)
        (world_of (do_parse_loop ev cfg out names (Suc idx) rest
           (after_document ev cfg out (names ! idx) b w)))"
      by (rule Cons.IH)
    ultimately show ?thesis
      unfolding do_parse_loop_Cons [OF True] by (rule pipeline_step_trans)
  next
    case False
    then show ?thesis by (simp add: pipeline_step_refl)
  qed
qed

lemma do_parse_step: "pipeline_step w (world_of (do_parse ev cfg out names bs w))"
  by (simp add: do_parse_def do_parse_loop_step pipeline_step_emit)

lemma read_batch_eq:
  "read_batch ev ps (ns, bs, w) =
     (ns @ map (\<lambda>p. stem (path_name p)) (filter (readable ev) ps),
      bs @ map (\<lambda>p. the (read_fn ev p)) (filter (readable ev) ps),
      w\<lparr>trace := trace w @
           map (\<lambda>p. ReadFailed (stem (path_name p))) (filter (\<lambda>p. \<not> readable ev p) ps)\<rparr>)"
proof (induction ps arbitrary: ns bs w)
  case Nil
  then show ?case by simp
next
  case (Cons p ps)
  show ?case
  proof (cases "read_fn ev p")
    case None
    then show ?thesis by (simp add: Cons.IH readable_def emit_def)
  next
    case (Some b)
    then show ?thesis by (simp add: Cons.IH readable_def)
  qed
qed

lemma read_failed_step:
  "pipeline_step w (w\<lparr>trace := trace w @ map (\<lambda>p. ReadFailed (f p)) ps\<rparr>)"
  by (auto simp: pipeline_step_def)

lemma batches_loop_Cons:
  "batches_loop ev cfg path_list out B (i # rest) w =
     (case after_batch ev cfg path_list out B i w of
        Raised e w2 \<Rightarrow> Raised e w2
      | Normal w2 \<Rightarrow> batches_loop ev cfg path_list out B rest w2)"
  by (simp add: after_batch_def split: prod.splits outcome.splits)

lemma after_batch_step: "pipeline_step w (world_of (after_batch ev cfg path_list out B i w))"
proof -
  let ?ps = "current_batch path_list B (int i)"
  obtain ns bs w1 where r: "read_batch ev ?ps ([], [], w) = (ns, bs, w1)"
    by (metis prod_cases3)
  then have s1: "pipeline_step w w1"
    by (auto simp: read_batch_eq read_failed_step)
  show ?thesis
  proof (cases "ns = []")
    case True
    have "pipeline_step w1 (emit (BatchSkipped i) w1)" by (simp add: pipeline_step_emit)
    with s1 have "pipeline_step w (emit (BatchSkipped i) w1)" by (rule pipeline_step_trans)
    then show ?thesis using r True by (simp add: after_batch_def)
  next
    case False
    let ?w1 = "emit (BatchDispatched ns) w1"
    have "pipeline_step w1 ?w1" by (simp add: pipeline_step_emit)
    with s1 have s2: "pipeline_step w ?w1" by (rule pipeline_step_trans)
    have s3: "pipeline_step ?w1 (world_of (do_parse ev cfg out ns bs ?w1))"
      by (rule do_parse_step)
    show ?thesis
    proof (cases "do_parse ev cfg out ns bs ?w1")
      case (Raised e w2)
      with s2 s3 have "pipeline_step w w2" by (auto intro: pipeline_step_trans)
      then show ?thesis using r False Raised by (simp add: after_batch_def)
    next
      case (Normal w2)
      with s2 s3 have "pipeline_step w w2" by (auto intro: pipeline_step_trans)
      moreover have "pipeline_step w2 (emit (Sleep 2) w2)" by (simp add: pipeline_step_emit)
      ultimately have "pipeline_step w (emit (Sleep 2) w2)" "pipeline_step w w2"
        by (auto intro: pipeline_step_trans)
      then show ?thesis using r False Normal by (simp add: after_batch_def)
    qed
  qed
qed

lemma batches_loop_step:
  "pipeline_step w (world_of (batches_loop ev cfg path_list out B is w))"
proof (induction "is" arbitrary: w)
  case Nil
  then show ?case by (simp add: pipeline_step_refl)
next
  case (Cons i rest)
  have s: "pipeline_step w (world_of (after_batch ev cfg path_list out B i w))"
    by (rule after_batch_step)
  show ?case
  proof (cases "after_batch ev cfg path_list out B i w")
    case (Normal w2)
    with s Cons.IH [of w2] show ?thesis
      unfolding batches_loop_Cons by (auto intro: pipeline_step_trans)
  next
    case (Raised e w2)
    with s show ?thesis unfolding batches_loop_Cons by simp
  qed
qed

lemma parse_doc_step:
  "pipeline_step w (world_of (parse_doc ev cfg path_list out B w))"
proof -
  let ?r = "parse_doc_body ev cfg path_list out B w"
  have b: "pipeline_step w (world_of ?r)"
    by (simp add: parse_doc_body_def pipeline_step_refl batches_loop_step)
  show ?thesis
  proof (cases ?r)
    case (Normal w1)
    with b show ?thesis by (simp add: parse_doc_def)
  next
    case (Raised e w1)
    have "pipeline_step w1 (emit (ParseDocFailed e) w1)" by (simp add: pipeline_step_emit)
    with b Raised show ?thesis by (auto simp: parse_doc_def intro: pipeline_step_trans)
  qed
qed

lemma parse_doc_returns: "\<exists>w'. parse_doc ev cfg path_list out B w = Normal w'"
  by (simp add: parse_doc_def split: outcome.splits)

lemma call_parse_doc_step:
  "pipeline_step w (world_of (call_parse_doc ev cfg path_list out B w))"
  by (simp add: call_parse_doc_def parse_doc_step pipeline_step_refl)

lemma call_parse_doc_raised:
  "call_parse_doc ev cfg path_list out B w = Raised e w' \<longleftrightarrow>
     unexpected_keywords cfg \<noteq> [] \<and> e = TypeError \<and> w' = w"
  using parse_doc_returns [of ev cfg path_list out B w]
  by (auto simp: call_parse_doc_def)

section \<open>The batches that parse\_doc dispatches\<close>

lemma dispatched_emit: "dispatched (trace (emit e w)) = dispatched (trace w) @ dispatched_names e"
  by (simp add: dispatched_def emit_def)

lemma after_document_dispatched:
  "dispatched (trace (after_document ev cfg out name b w)) = dispatched (trace w)"
  by (simp add: after_document_def dispatched_emit split: outcome.splits)

lemma do_parse_loop_dispatched:
  "dispatched (trace (world_of (do_parse_loop ev cfg out names idx bs w))) = dispatched (trace w)"
proof (induction bs arbitrary: idx w)
  case Nil
  then show ?case by simp
next
  case (Cons b rest)
  show ?case
  proof (cases "idx < length names")
    case True
    show ?thesis
      unfolding do_parse_loop_Cons [OF True]
      by (simp add: Cons.IH after_document_dispatched)
  next
    case False
    then show ?thesis by simp
  qed
qed

lemma do_parse_dispatched:
  "dispatched (trace (world_of (do_parse ev cfg out names bs w))) = dispatched (trace w)"
  by (simp add: do_parse_def do_parse_loop_dispatched dispatched_emit)

lemma do_parse_returns:
  assumes "length bs \<le> length names"
  shows "\<exists>w'. do_parse ev cfg out names bs w = Normal w'"
proof (cases "backend cfg = ''vlm-transformers''")
  case True
  from assms have "0 + length bs \<le> length names" by simp
  from do_parse_loop_resolved [OF this, of ev cfg out w] True show ?thesis
    by (auto simp: do_parse_def)
next
  case False
  then show ?thesis by (simp add: do_parse_def)
qed

lemma after_batch_dispatched:
  "\<exists>w'. after_batch ev cfg path_list out B i w = Normal w' \<and>
     dispatched (trace w') = dispatched (trace w) @
       (if readable_names ev (current_batch path_list B (int i)) = [] then []
        else [readable_names ev (current_batch path_list B (int i))])"
proof -
  define ps where "ps = current_batch path_list B (int i)"
  define ns where "ns = readable_names ev ps"
  define bs where "bs = map (\<lambda>p. the (read_fn ev p)) (filter (readable ev) ps)"
  define w1 where "w1 = w\<lparr>trace := trace w @
      map (\<lambda>p. ReadFailed (stem (path_name p))) (filter (\<lambda>p. \<not> readable ev p) ps)\<rparr>"
  have r: "read_batch ev (current_batch path_list B (int i)) ([], [], w) = (ns, bs, w1)"
    by (simp add: read_batch_eq ns_def bs_def w1_def ps_def readable_names_def)
  have len: "length bs \<le> length ns" by (simp add: ns_def bs_def readable_names_def)
  have d1: "dispatched (trace w1) = dispatched (trace w)"
    by (simp add: w1_def dispatched_def)
  show ?thesis
  proof (cases "ns = []")
    case True
    then show ?thesis
      unfolding after_batch_def r using d1
      by (simp add: dispatched_emit ns_def ps_def)
  next
    case False
    define w2 where "w2 = emit (BatchDispatched ns) w1"
    from do_parse_returns [OF len, of ev cfg out w2] obtain w3 where
      w3: "do_parse ev cfg out ns bs w2 = Normal w3" by blast
    have "dispatched (trace w3) = dispatched (trace w2)"
      using do_parse_dispatched [of ev cfg out ns bs w2] w3 by simp
    then have d3: "dispatched (trace w3) = dispatched (trace w) @ [ns]"
      by (simp add: w2_def dispatched_emit d1)
    show ?thesis
      unfolding after_batch_def r using False w3 d3
      by (simp add: w2_def dispatched_emit ns_def ps_def)
  qed
qed

lemma batches_loop_dispatched:
  "\<exists>w'. batches_loop ev cfg path_list out B is w = Normal w' \<and>
     dispatched (trace w') = dispatched (trace w) @
       filter (\<lambda>ns. ns \<noteq> [])
         (map (\<lambda>i. readable_names ev (current_batch path_list B (int i))) is)"
proof (induction "is" arbitrary: w)
  case Nil
  then show ?case by simp
next
  case (Cons i rest)
  from after_batch_dispatched [of ev cfg path_list out B i w] obtain w1 where
    w1: "after_batch ev cfg path_list out B i w = Normal w1"
    "dispatched (trace w1) = dispatched (trace w) @
       (if readable_names ev (current_batch path_list B (int i)) = [] then []
        else [readable_names ev (current_batch path_list B (int i))])"
    by blast
  from Cons.IH [of w1] obtain w' where
    w': "batches_loop ev cfg path_list out B rest w1 = Normal w'"
    "dispatched (trace w') = dispatched (trace w1) @
       filter (\<lambda>ns. ns \<noteq> [])
         (map (\<lambda>i. readable_names ev (current_batch path_list B (int i))) rest)"
    by blast
  have "batches_loop ev cfg path_list out B (i # rest) w = Normal w'"
    unfolding batches_loop_Cons using w1(1) w'(1) by simp
  moreover have "dispatched (trace w') = dispatched (trace w) @
       filter (\<lambda>ns. ns \<noteq> [])
         (map (\<lambda>i. readable_names ev (current_batch path_list B (int i))) (i # rest))"
    using w1(2) w'(2) by simp
  ultimately show ?case by blast
qed

lemma parse_doc_dispatched:
  assumes "0 < B"
  shows "\<exists>w'. parse_doc ev cfg path_list out B w = Normal w' \<and>
     dispatched (trace w') = dispatched (trace w) @
       filter (\<lambda>ns. ns \<noteq> []) (map (readable_names ev) (batches path_list B))"
proof -
  from batches_loop_dispatched [of ev cfg path_list out B
      "[0..<nat (total_batches path_list B)]" w]
  obtain w' where
    w': "batches_loop ev cfg path_list out B [0..<nat (total_batches path_list B)] w = Normal w'"
    "dispatched (trace w') = dispatched (trace w) @
       filter (\<lambda>ns. ns \<noteq> [])
         (map (\<lambda>i. readable_names ev (current_batch path_list B (int i)))
            [0..<nat (total_batches path_list B)])"
    by blast
  have "parse_doc ev cfg path_list out B w = Normal w'"
    using assms w'(1) by (simp add: parse_doc_def parse_doc_body_def)
  moreover have "map (readable_names ev) (batches path_list B) =
      map (\<lambda>i. readable_names ev (current_batch path_list B (int i)))
        [0..<nat (total_batches path_list B)]"
    by (simp add: batches_def o_def)
  ultimately show ?thesis using w'(2) by auto
qed

text \<open>
  C4. For a positive batch size \<open>B\<close> and a list of \<open>N\<close> items, the loop of \<open>parse_doc\<close>
  goes through \<open>ceil(N/B)\<close> batches; put one after the other they give the list back,
  so the order is kept within and across batches; every batch but the last has \<open>B\<close>
  items, and the last has \<open>N mod B\<close> items when that is not zero and \<open>B\<close> otherwise.
  These are the batches that \<open>parse_doc\<close> hands to \<open>do_parse\<close>, one call per batch and in
  this order, each reduced to its readable files and left out when none of its files
  can be read.
\<close>

theorem batch_partitioning:
  assumes "0 < B"
  shows "int (length (batches path_list B)) = \<lceil>real (length path_list) / real_of_int B\<rceil> \<and>
         concat (batches path_list B) = path_list \<and>
         (\<forall>i < length (batches path_list B).
            length (batches path_list B ! i) =
              (if Suc i < length (batches path_list B) then nat B
               else if length path_list mod nat B = 0 then nat B
               else length path_list mod nat B)) \<and>
         (\<exists>w'. parse_doc ev cfg path_list output_dir B w = Normal w' \<and>
            dispatched (trace w') = dispatched (trace w) @
              filter (\<lambda>ns. ns \<noteq> []) (map (readable_names ev) (batches path_list B)))"
  using batches_partition [OF assms, of path_list]
    parse_doc_dispatched [OF assms, of ev cfg path_list output_dir w]
  by blast

theorem batch_partitioning_witness:
  "(0::int) < 5 \<and>
   map length (batches (map (\<lambda>n. [''in'', replicate n CHR ''x'' @ ''.pdf'']) [0..<12]) 5)
     = [5, 5, 2] \<and>
   concat (batches (map (\<lambda>n. [''in'', replicate n CHR ''x'' @ ''.pdf'']) [0..<12]) 5)
     = map (\<lambda>n. [''in'', replicate n CHR ''x'' @ ''.pdf'']) [0..<12] \<and>
   (\<exists>w'. parse_doc example_env example_config
           (map (\<lambda>n. [''in'', replicate n CHR ''x'' @ ''.pdf'']) [0..<12]) [''out''] 5
           example_world = Normal w' \<and>
      map length (dispatched (trace w')) = [5, 5, 2])"
proof -
  let ?ps = "map (\<lambda>n. [''in'', replicate n CHR ''x'' @ ''.pdf'']) [0..<12]"
  have h: "(0::int) < 5" by simp
  have sizes: "map length (batches ?ps 5) = [5, 5, 2]" by code_simp
  have d: "map length (filter (\<lambda>ns. ns \<noteq> []) (map (readable_names example_env) (batches ?ps 5)))
      = [5, 5, 2]"
    by code_simp
  from batch_partitioning [OF h, of ?ps example_env example_config "[''out'']" example_world]
  obtain w' where c: "concat (batches ?ps 5) = ?ps"
    and w': "parse_doc example_env example_config ?ps [''out''] 5 example_world = Normal w'"
    "dispatched (trace w') = dispatched (trace example_world) @
       filter (\<lambda>ns. ns \<noteq> []) (map (readable_names example_env) (batches ?ps 5))"
    by blast
  from w'(2) d have dl: "map length (dispatched (trace w')) = [5, 5, 2]"
    by (simp add: example_world_def dispatched_def)
  have "\<exists>w'. parse_doc example_env example_config ?ps [''out''] 5 example_world = Normal w' \<and>
      map length (dispatched (trace w')) = [5, 5, 2]"
    using w'(1) dl by (intro exI [of _ w'] conjI)
  with h sizes c show ?thesis by (intro conjI)
qed

section \<open>Entries stay and new files lie deep\<close>




















section \<open>The rounds of the driver\<close>

lemma filtered_plus_skipped:
  "length (filtered_of fs1 output_path subfolder) + skipped_of fs1 output_path subfolder
     = length (glob_pdf fs1 subfolder)"
  by (simp add: filtered_of_def skipped_of_def filter_pdf_files_acc sum_length_filter_compl add.commute)

lemma filtered_of_glob_empty: "glob_pdf fs1 subfolder = [] \<Longrightarrow> filtered_of fs1 output_path subfolder = []"
  by (simp add: filtered_of_def)

lemma process_folder_mkdir_fails:
  assumes "mkdir (fs w) (output_path @ [path_name subfolder]) = Inl e"
  shows "process_folder ev cfg output_path B n idx subfolder (w, s) = Raised e (w, s)"
  using assms by (simp add: process_folder_def)

lemma process_folder_empty:
  assumes "mkdir (fs w) (output_path @ [path_name subfolder]) = Inr fs1"
    and "glob_pdf fs1 subfolder = []"
  shows "process_folder ev cfg output_path B n idx subfolder (w, s) =
           Normal (emit (FolderEmpty (path_name subfolder)) (w\<lparr>fs := fs1\<rparr>), s)"
  using assms by (simp add: process_folder_def)

lemma counted_alt:
  "(if 0 < skipped_of fs1 output_path subfolder
    then (s\<lparr>total_pdfs := total_pdfs s + length (glob_pdf fs1 subfolder)\<rparr>)
           \<lparr>total_skipped := total_skipped (s\<lparr>total_pdfs := total_pdfs s + length (glob_pdf fs1 subfolder)\<rparr>)
               + skipped_of fs1 output_path subfolder\<rparr>
    else s\<lparr>total_pdfs := total_pdfs s + length (glob_pdf fs1 subfolder)\<rparr>)
   = counted fs1 output_path subfolder s"
  by (simp add: counted_def)

lemma process_folder_all_done:
  assumes "mkdir (fs w) (output_path @ [path_name subfolder]) = Inr fs1"
    and "glob_pdf fs1 subfolder \<noteq> []"
    and "filtered_of fs1 output_path subfolder = []"
  shows "process_folder ev cfg output_path B n idx subfolder (w, s) =
           Normal (emit (FolderAllDone (path_name subfolder)) (w\<lparr>fs := fs1\<rparr>),
                   (counted fs1 output_path subfolder s)
                     \<lparr>skipped_folders := skipped_folders s + 1\<rparr>)"
proof -
  obtain filtered skipped where
    f: "filter_pdf_files fs1 (output_path @ [path_name subfolder]) (glob_pdf fs1 subfolder) ([], 0)
          = (filtered, skipped)"
    by (metis surj_pair)
  then have fo: "filtered_of fs1 output_path subfolder = filtered"
    and so: "skipped_of fs1 output_path subfolder = skipped"
    by (simp_all add: filtered_of_def skipped_of_def)
  show ?thesis
    using assms f counted_alt [of fs1 output_path subfolder s]
    unfolding fo so
    by (simp add: process_folder_def Let_def counted_def so)
qed

lemma process_folder_call:
  assumes "mkdir (fs w) (output_path @ [path_name subfolder]) = Inr fs1"
    and "filtered_of fs1 output_path subfolder \<noteq> []"
  shows "process_folder ev cfg output_path B n idx subfolder (w, s) =
     (case call_parse_doc ev cfg (filtered_of fs1 output_path subfolder)
             (output_path @ [path_name subfolder]) B
             (emit (FolderNeeds (path_name subfolder)
                      (length (filtered_of fs1 output_path subfolder))) (w\<lparr>fs := fs1\<rparr>)) of
        Normal w2 \<Rightarrow>
          Normal (if int idx < int n - 1
                  then emit (Sleep 3) (emit (FolderDone (path_name subfolder)) w2)
                  else emit (FolderDone (path_name subfolder)) w2,
                  (counted fs1 output_path subfolder s)
                    \<lparr>total_processed :=
                       total_processed s + length (filtered_of fs1 output_path subfolder)\<rparr>)
      | Raised e w2 \<Rightarrow>
          Normal (emit (FolderError (path_name subfolder)
                          (length (filtered_of fs1 output_path subfolder))) w2,
                  counted fs1 output_path subfolder s))"
proof -
  obtain filtered skipped where
    f: "filter_pdf_files fs1 (output_path @ [path_name subfolder]) (glob_pdf fs1 subfolder) ([], 0)
          = (filtered, skipped)"
    by (metis surj_pair)
  then have fo: "filtered_of fs1 output_path subfolder = filtered"
    and so: "skipped_of fs1 output_path subfolder = skipped"
    by (simp_all add: filtered_of_def skipped_of_def)
  have g: "glob_pdf fs1 subfolder \<noteq> []"
    using assms(2) filtered_of_glob_empty by blast
  show ?thesis
    using assms g f counted_alt [of fs1 output_path subfolder s]
    unfolding fo so
    by (simp add: process_folder_def Let_def counted_def so split: outcome.splits)
qed

lemma failed_items_emit: "failed_items (trace (emit e w)) = failed_items (trace w) + failed_count e"
  by (simp add: failed_items_def emit_def)

lemma failed_items_fs: "failed_items (trace (w\<lparr>fs := f\<rparr>)) = failed_items (trace w)"
  by simp

lemma counted_fields:
  "total_pdfs (counted fs1 output_path subfolder s) = total_pdfs s + length (glob_pdf fs1 subfolder)"
  "total_skipped (counted fs1 output_path subfolder s) = total_skipped s + skipped_of fs1 output_path subfolder"
  "total_processed (counted fs1 output_path subfolder s) = total_processed s"
  "skipped_folders (counted fs1 output_path subfolder s) = skipped_folders s"
  by (simp_all add: counted_def)

lemma process_folder_consistent:
  assumes "process_folder ev cfg output_path B n idx subfolder (w, s) = Normal (w', s')"
    and "consistent (w, s)"
  shows "consistent (w', s')"
proof (cases "mkdir (fs w) (output_path @ [path_name subfolder])")
  case (Inl e)
  with assms(1) show ?thesis by (simp add: process_folder_mkdir_fails)
next
  case (Inr fs1)
  let ?w1 = "w\<lparr>fs := fs1\<rparr>"
  let ?filtered = "filtered_of fs1 output_path subfolder"
  note sum = filtered_plus_skipped [of fs1 output_path subfolder]
  show ?thesis
  proof (cases "glob_pdf fs1 subfolder = []")
    case True
    with assms Inr show ?thesis
      by (auto simp: process_folder_empty consistent_def failed_items_emit)
  next
    case pdfs: False
    show ?thesis
    proof (cases "?filtered = []")
      case True
      from assms(1) have "w' = emit (FolderAllDone (path_name subfolder)) ?w1"
        and "s' = (counted fs1 output_path subfolder s)\<lparr>skipped_folders := skipped_folders s + 1\<rparr>"
        by (simp_all add: process_folder_all_done [OF Inr pdfs True])
      with assms(2) sum True show ?thesis
        by (simp add: consistent_def failed_items_emit counted_fields)
    next
      case False
      let ?w2 = "emit (FolderNeeds (path_name subfolder) (length ?filtered)) ?w1"
      let ?r = "call_parse_doc ev cfg ?filtered (output_path @ [path_name subfolder]) B ?w2"
      have "pipeline_step ?w2 (world_of ?r)" by (rule call_parse_doc_step)
      then have fi: "failed_items (trace (world_of ?r)) = failed_items (trace w)"
        by (simp add: pipeline_step_failed_items failed_items_emit)
      show ?thesis
      proof (cases ?r)
        case (Normal w2)
        with assms(1) have "s' = (counted fs1 output_path subfolder s)
             \<lparr>total_processed := total_processed s + length ?filtered\<rparr>"
          and "failed_items (trace w') = failed_items (trace w2)"
          by (auto simp: process_folder_call [OF Inr False] failed_items_emit split: if_splits)
        with assms(2) sum fi Normal show ?thesis
          by (simp add: consistent_def counted_fields)
      next
        case (Raised e w2)
        with assms(1) have "s' = counted fs1 output_path subfolder s"
          and "failed_items (trace w') = failed_items (trace w2) + length ?filtered"
          by (auto simp: process_folder_call [OF Inr False] failed_items_emit)
        with assms(2) sum fi Raised show ?thesis
          by (simp add: consistent_def counted_fields)
      qed
    qed
  qed
qed

lemma folder_loop_consistent:
  "folder_loop ev cfg output_path B n idx subfolders state = Normal state' \<Longrightarrow>
   consistent state \<Longrightarrow> consistent state'"
proof (induction subfolders arbitrary: idx state)
  case Nil
  then show ?case by simp
next
  case (Cons subfolder rest)
  obtain w s where st: "state = (w, s)" by (cases state)
  from Cons.prems(1) obtain state1 where
    p: "process_folder ev cfg output_path B n idx subfolder state = Normal state1"
    and l: "folder_loop ev cfg output_path B n (Suc idx) rest state1 = Normal state'"
    by (auto split: outcome.splits)
  obtain w1 s1 where st1: "state1 = (w1, s1)" by (cases state1)
  from p Cons.prems(2) have "consistent state1"
    unfolding st st1 by (rule process_folder_consistent)
  with l show ?case by (rule Cons.IH)
qed

text \<open>
  C1. Whenever a run of \<open>process_folder_structure\<close> reaches its statistics, the number of
  discovered documents equals the number skipped as already parsed, plus the number
  dispatched to \<open>parse_doc\<close>, plus the number of documents of the groups whose call of
  \<open>parse_doc\<close> raised (they are counted nowhere else).
\<close>

theorem statistics_consistency:
  assumes "process_folder_structure ev input_path output_path B cfg fs0 = Completed w s k"
  shows "total_pdfs s = total_skipped s + total_processed s + failed_items (trace w)"
proof -
  from assms obtain fs1 subfolders where
    l: "folder_loop ev cfg output_path B (length subfolders) 0 subfolders
          (\<lparr>fs = fs1, trace = []\<rparr>, initial_stats) = Normal (w, s)"
    by (auto simp: process_folder_structure_def Let_def
        split: if_splits sum.splits outcome.splits prod.splits)
  have "consistent (\<lparr>fs = fs1, trace = []\<rparr>, initial_stats)"
    by (simp add: consistent_def initial_stats_def failed_items_def)
  with l have "consistent (w, s)" by (rule folder_loop_consistent)
  then show ?thesis by (simp add: consistent_def)
qed

















lemma folder_loop_Cons_Normal:
  "process_folder ev cfg output_path B n idx subfolder state = Normal state1 \<Longrightarrow>
   folder_loop ev cfg output_path B n idx (subfolder # rest) state
     = folder_loop ev cfg output_path B n (Suc idx) rest state1"
  by simp






text \<open>
  C9, as amended. When the filtered list of a folder is empty, the round of that folder
  logs nothing but one line (so \<open>parse_doc\<close> is not called and there is no pause), counts
  all its documents as skipped and none as processed, changes the file system by nothing
  but the output folder, and the loop goes on with the next folder. The folder is counted
  in \<open>skipped_folders\<close> when it has documents, all of them parsed before; a folder without
  any document is passed over in the same way but is not counted in \<open>skipped_folders\<close>.
\<close>

theorem folder_without_work_passed_over:
  assumes "mkdir (fs w) (output_path @ [path_name subfolder]) = Inr fs1"
    and "filtered_of fs1 output_path subfolder = []"
  shows "\<exists>w' s'.
      process_folder ev cfg output_path B n idx subfolder (w, s) = Normal (w', s') \<and>
      skipped_folders s' =
        (if glob_pdf fs1 subfolder = [] then skipped_folders s else skipped_folders s + 1) \<and>
      total_skipped s' = total_skipped s + length (glob_pdf fs1 subfolder) \<and>
      total_pdfs s' = total_pdfs s + length (glob_pdf fs1 subfolder) \<and>
      total_processed s' = total_processed s \<and>
      fs w' = fs1 \<and>
      trace w' = trace w @
        [if glob_pdf fs1 subfolder = [] then FolderEmpty (path_name subfolder)
         else FolderAllDone (path_name subfolder)] \<and>
      folder_loop ev cfg output_path B n idx (subfolder # rest) (w, s)
        = folder_loop ev cfg output_path B n (Suc idx) rest (w', s')"
proof (cases "glob_pdf fs1 subfolder = []")
  case True
  let ?w' = "emit (FolderEmpty (path_name subfolder)) (w\<lparr>fs := fs1\<rparr>)"
  have p: "process_folder ev cfg output_path B n idx subfolder (w, s) = Normal (?w', s)"
    using assms(1) True by (rule process_folder_empty)
  have "fs ?w' = fs1" "trace ?w' = trace w @ [FolderEmpty (path_name subfolder)]"
    by (simp_all add: emit_def)
  with True p folder_loop_Cons_Normal [OF p, of rest] show ?thesis by simp
next
  case False
  let ?w' = "emit (FolderAllDone (path_name subfolder)) (w\<lparr>fs := fs1\<rparr>)"
  let ?s' = "(counted fs1 output_path subfolder s)\<lparr>skipped_folders := skipped_folders s + 1\<rparr>"
  have p: "process_folder ev cfg output_path B n idx subfolder (w, s) = Normal (?w', ?s')"
    using assms(1) False assms(2) by (rule process_folder_all_done)
  have sk: "skipped_of fs1 output_path subfolder = length (glob_pdf fs1 subfolder)"
    using filtered_plus_skipped [of fs1 output_path subfolder] assms(2) by simp
  have "skipped_folders ?s' = skipped_folders s + 1"
    "total_skipped ?s' = total_skipped s + length (glob_pdf fs1 subfolder)"
    "total_pdfs ?s' = total_pdfs s + length (glob_pdf fs1 subfolder)"
    "total_processed ?s' = total_processed s"
    "fs ?w' = fs1" "trace ?w' = trace w @ [FolderAllDone (path_name subfolder)]"
    by (simp_all add: counted_fields sk emit_def)
  with False p folder_loop_Cons_Normal [OF p, of rest] show ?thesis by simp
qed


text \<open>
  C10. \<open>parse_doc\<close> returns normally on every input. The call of \<open>parse_doc\<close> in the driver
  raises only when the configuration carries a keyword that \<open>parse_doc\<close> does not accept,
  before its body is entered; so no failure inside the pipeline reaches the handler of the
  driver. When the keywords are accepted and the filtered list of a folder is not empty,
  the round of the folder adds the whole length of that list to \<open>total_processed\<close>,
  whatever failed inside \<open>parse_doc\<close>.
\<close>

theorem parse_doc_never_raises:
  "(\<exists>w'. parse_doc ev cfg path_list output_dir B w = Normal w') \<and>
   (\<forall>e w'. call_parse_doc ev cfg path_list output_dir B w = Raised e w' \<longleftrightarrow>
            unexpected_keywords cfg \<noteq> [] \<and> e = TypeError \<and> w' = w) \<and>
   (unexpected_keywords cfg = [] \<and>
    mkdir (fs w0) (output_path @ [path_name subfolder]) = Inr fs1 \<and>
    filtered_of fs1 output_path subfolder \<noteq> [] \<longrightarrow>
      (\<exists>w' s'. process_folder ev cfg output_path B n idx subfolder (w0, s) = Normal (w', s') \<and>
         total_processed s' =
           total_processed s + length (filtered_of fs1 output_path subfolder)))"
proof (intro conjI allI impI)
  show "\<exists>w'. parse_doc ev cfg path_list output_dir B w = Normal w'"
    by (rule parse_doc_returns)
next
  fix e w'
  show "call_parse_doc ev cfg path_list output_dir B w = Raised e w' \<longleftrightarrow>
            unexpected_keywords cfg \<noteq> [] \<and> e = TypeError \<and> w' = w"
    by (rule call_parse_doc_raised)
next
  assume a: "unexpected_keywords cfg = [] \<and>
    mkdir (fs w0) (output_path @ [path_name subfolder]) = Inr fs1 \<and>
    filtered_of fs1 output_path subfolder \<noteq> []"
  let ?filtered = "filtered_of fs1 output_path subfolder"
  let ?w1 = "emit (FolderNeeds (path_name subfolder) (length ?filtered)) (w0\<lparr>fs := fs1\<rparr>)"
  obtain w2 where "parse_doc ev cfg ?filtered (output_path @ [path_name subfolder]) B ?w1 = Normal w2"
    using parse_doc_returns by blast
  with a have c: "call_parse_doc ev cfg ?filtered (output_path @ [path_name subfolder]) B ?w1 = Normal w2"
    by (simp add: call_parse_doc_def)
  from a have m: "mkdir (fs w0) (output_path @ [path_name subfolder]) = Inr fs1"
    and f: "?filtered \<noteq> []" by simp_all
  show "\<exists>w' s'. process_folder ev cfg output_path B n idx subfolder (w0, s) = Normal (w', s') \<and>
         total_processed s' = total_processed s + length ?filtered"
    using c by (simp add: process_folder_call [OF m f])
qed











section \<open>The properties on a concrete run\<close>

text \<open>
  The run on the example tree with the configuration that carries an unknown keyword:
  five documents are found, two are skipped, none is processed, and the three others
  belong to the two groups whose call failed.
\<close>

theorem statistics_consistency_witness:
  "\<exists>w s k.
     process_folder_structure example_env [''in''] [''out''] 5 example_bad_config example_tree
       = Completed w s k \<and>
     total_pdfs s = 5 \<and> total_skipped s = 2 \<and> total_processed s = 0 \<and>
     failed_items (trace w) = 3 \<and>
     total_pdfs s = total_skipped s + total_processed s + failed_items (trace w)"
proof -
  have "case process_folder_structure example_env [''in''] [''out''] 5 example_bad_config
               example_tree of
          Completed w s k \<Rightarrow>
            total_pdfs s = 5 \<and> total_skipped s = 2 \<and> total_processed s = 0 \<and>
            failed_items (trace w) = 3
        | _ \<Rightarrow> False"
    by code_simp
  then obtain w s k where
    r: "process_folder_structure example_env [''in''] [''out''] 5 example_bad_config example_tree
          = Completed w s k"
    and v: "total_pdfs s = 5 \<and> total_skipped s = 2 \<and> total_processed s = 0 \<and>
            failed_items (trace w) = 3"
    by (auto split: run.splits)
  from statistics_consistency [OF r] r v show ?thesis by blast
qed


text \<open>
  The folder \<open>misc\<close> of the example has no document: its filtered list is empty, its round
  leaves the counters as they are, \<open>skipped_folders\<close> included, and the run counts one
  skipped folder, \<open>2021-03-03_C\<close>, and three processed ones, \<open>misc\<close> among them.
\<close>

theorem empty_folder_not_counted_as_skipped:
  "mkdir example_tree [''out'', ''misc''] = Inr (([''out'', ''misc''], Directory) # example_tree) \<and>
   filtered_of (([''out'', ''misc''], Directory) # example_tree) [''out''] [''in'', ''misc''] = [] \<and>
   process_folder example_env example_config [''out''] 5 4 3 [''in'', ''misc'']
       (example_world, example_stats)
     = Normal (\<lparr>fs = ([''out'', ''misc''], Directory) # example_tree,
                trace = [FolderEmpty ''misc'']\<rparr>, example_stats) \<and>
   skipped_folders example_stats = 0 \<and>
   closed_folders
     (run_trace (process_folder_structure example_env [''in''] [''out''] 5 example_config
        example_tree)) = [''2022-06-01_B'', ''2021-03-03_C'', ''2020-01-01_A'', ''misc''] \<and>
   reported_folders
     (run_trace (process_folder_structure example_env [''in''] [''out''] 5 example_config
        example_tree)) = 3 \<and>
   run_stats (process_folder_structure example_env [''in''] [''out''] 5 example_config
        example_tree)
     = Some \<lparr>total_pdfs = 5, total_skipped = 2, total_processed = 3, skipped_folders = 1\<rparr>"
  by code_simp

text \<open>
  The folder \<open>2021-03-03_C\<close> of the example, whose only document is already parsed, and
  the folder \<open>misc\<close>, which has none.
\<close>

theorem folder_without_work_passed_over_witness:
  "mkdir (fs example_world) ([''out''] @ [path_name [''in'', ''2021-03-03_C''] ]) = Inr example_tree \<and>
   filtered_of example_tree [''out''] [''in'', ''2021-03-03_C''] = [] \<and>
   (\<exists>w' s'.
      process_folder example_env example_config [''out''] 5 4 1 [''in'', ''2021-03-03_C'']
        (example_world, example_stats) = Normal (w', s') \<and>
      skipped_folders s' = 1 \<and> total_skipped s' = 1 \<and> total_processed s' = 0 \<and>
      trace w' = [FolderAllDone ''2021-03-03_C'']) \<and>
   mkdir (fs example_world) ([''out''] @ [path_name [''in'', ''misc''] ])
     = Inr (([''out'', ''misc''], Directory) # example_tree) \<and>
   filtered_of (([''out'', ''misc''], Directory) # example_tree) [''out''] [''in'', ''misc''] = [] \<and>
   (\<exists>w' s'.
      process_folder example_env example_config [''out''] 5 4 3 [''in'', ''misc'']
        (example_world, example_stats) = Normal (w', s') \<and>
      skipped_folders s' = 0 \<and> total_skipped s' = 0 \<and> total_processed s' = 0 \<and>
      trace w' = [FolderEmpty ''misc''])"
proof -
  let ?c = "[''in'', ''2021-03-03_C'']"
  let ?m = "[''in'', ''misc'']"
  let ?fm = "([''out'', ''misc''], Directory) # example_tree"
  have h1: "mkdir (fs example_world) ([''out''] @ [path_name ?c]) = Inr example_tree"
    by code_simp
  have h3: "filtered_of example_tree [''out''] ?c = []" by code_simp
  have g: "glob_pdf example_tree ?c \<noteq> []" by code_simp
  have n: "length (glob_pdf example_tree ?c) = 1" by code_simp
  have nm: "path_name ?c = ''2021-03-03_C''" by (simp add: path_name_def)
  from folder_without_work_passed_over [OF h1 h3, of example_env example_config 5 4 1 example_stats "[]"]
  obtain w' s' where
    "process_folder example_env example_config [''out''] 5 4 1 ?c
        (example_world, example_stats) = Normal (w', s')"
    "skipped_folders s' =
       (if glob_pdf example_tree ?c = [] then skipped_folders example_stats
        else skipped_folders example_stats + 1)"
    "total_skipped s' = total_skipped example_stats + length (glob_pdf example_tree ?c)"
    "total_processed s' = total_processed example_stats"
    "trace w' = trace example_world @
       [if glob_pdf example_tree ?c = [] then FolderEmpty (path_name ?c)
        else FolderAllDone (path_name ?c)]"
    by blast
  then have c: "\<exists>w' s'. process_folder example_env example_config [''out''] 5 4 1 ?c
        (example_world, example_stats) = Normal (w', s') \<and>
      skipped_folders s' = 1 \<and> total_skipped s' = 1 \<and> total_processed s' = 0 \<and>
      trace w' = [FolderAllDone ''2021-03-03_C'']"
    using g by (simp add: n nm example_stats_def example_world_def)
  have k1: "mkdir (fs example_world) ([''out''] @ [path_name ?m]) = Inr ?fm"
    by code_simp
  have k3: "filtered_of ?fm [''out''] ?m = []" by code_simp
  have gm: "glob_pdf ?fm ?m = []" by code_simp
  have nmm: "path_name ?m = ''misc''" by (simp add: path_name_def)
  from folder_without_work_passed_over [OF k1 k3, of example_env example_config 5 4 3 example_stats "[]"]
  obtain w' s' where
    "process_folder example_env example_config [''out''] 5 4 3 ?m
        (example_world, example_stats) = Normal (w', s')"
    "skipped_folders s' =
       (if glob_pdf ?fm ?m = [] then skipped_folders example_stats
        else skipped_folders example_stats + 1)"
    "total_skipped s' = total_skipped example_stats + length (glob_pdf ?fm ?m)"
    "total_processed s' = total_processed example_stats"
    "trace w' = trace example_world @
       [if glob_pdf ?fm ?m = [] then FolderEmpty (path_name ?m)
        else FolderAllDone (path_name ?m)]"
    by blast
  then have m: "\<exists>w' s'. process_folder example_env example_config [''out''] 5 4 3 ?m
        (example_world, example_stats) = Normal (w', s') \<and>
      skipped_folders s' = 0 \<and> total_skipped s' = 0 \<and> total_processed s' = 0 \<and>
      trace w' = [FolderEmpty ''misc'']"
    by (simp add: gm nmm example_stats_def example_world_def)
  from h1 h3 c k1 k3 m show ?thesis by (intro conjI)
qed



text \<open>
  \<open>parse_doc\<close> returns even with batch size zero, and the folder \<open>2020-01-01_A\<close> of the
  example, where the analysis of \<open>b\<close> fails, counts both its new documents as processed.
\<close>

theorem parse_doc_never_raises_witness:
  "unexpected_keywords example_config = [] \<and>
   mkdir (fs example_world) ([''out''] @ [path_name [''in'', ''2020-01-01_A''] ]) = Inr example_tree \<and>
   filtered_of example_tree [''out''] [''in'', ''2020-01-01_A'']
     = [ [''in'', ''2020-01-01_A'', ''b.pdf''], [''in'', ''2020-01-01_A'', ''d.pdf''] ] \<and>
   (\<exists>w'. parse_doc example_env example_config
           [ [''in'', ''2020-01-01_A'', ''b.pdf''], [''in'', ''2020-01-01_A'', ''d.pdf''] ]
           [''out'', ''2020-01-01_A''] 0 example_world = Normal w') \<and>
   (\<exists>w' s'.
      process_folder example_env example_config [''out''] 5 4 2 [''in'', ''2020-01-01_A'']
        (example_world, example_stats) = Normal (w', s') \<and>
      total_processed s' = 2)"
proof -
  let ?sub = "[''in'', ''2020-01-01_A'']"
  have h1: "unexpected_keywords example_config = []" by (simp add: example_config_def)
  have h2: "mkdir (fs example_world) ([''out''] @ [path_name ?sub]) = Inr example_tree"
    by code_simp
  have f: "filtered_of example_tree [''out''] ?sub
     = [ [''in'', ''2020-01-01_A'', ''b.pdf''], [''in'', ''2020-01-01_A'', ''d.pdf''] ]"
    by code_simp
  then have h3: "filtered_of example_tree [''out''] ?sub \<noteq> []" by simp
  have t: "(\<exists>w'. parse_doc example_env example_config
           [ [''in'', ''2020-01-01_A'', ''b.pdf''], [''in'', ''2020-01-01_A'', ''d.pdf''] ]
           [''out'', ''2020-01-01_A''] 0 example_world = Normal w')"
    using parse_doc_never_raises [where ev = example_env and cfg = example_config
        and path_list = "[ [''in'', ''2020-01-01_A'', ''b.pdf''], [''in'', ''2020-01-01_A'', ''d.pdf''] ]"
        and output_dir = "[''out'', ''2020-01-01_A'']" and B = 0 and w = example_world]
    by (rule conjunct1)
  have i: "unexpected_keywords example_config = [] \<and>
       mkdir (fs example_world) ([''out''] @ [path_name ?sub]) = Inr example_tree \<and>
       filtered_of example_tree [''out''] ?sub \<noteq> [] \<longrightarrow>
       (\<exists>w' s'. process_folder example_env example_config [''out''] 5 4 2 ?sub
           (example_world, example_stats) = Normal (w', s') \<and>
         total_processed s' =
           total_processed example_stats + length (filtered_of example_tree [''out''] ?sub))"
    using parse_doc_never_raises [where ev = example_env and cfg = example_config
        and B = 5 and ?w0.0 = example_world and output_path = "[''out'']" and subfolder = ?sub
        and ?fs1.0 = example_tree and n = 4 and idx = 2 and s = example_stats]
    by (rule conjunct2 [THEN conjunct2])
  from i h1 h2 h3 obtain w' s' where
    "process_folder example_env example_config [''out''] 5 4 2 ?sub
           (example_world, example_stats) = Normal (w', s')"
    "total_processed s' =
           total_processed example_stats + length (filtered_of example_tree [''out''] ?sub)"
    by blast
  then have "process_folder example_env example_config [''out''] 5 4 2 ?sub
           (example_world, example_stats) = Normal (w', s') \<and> total_processed s' = 2"
    by (simp add: f example_stats_def)
  with h1 h2 f t show ?thesis by blast
qed


end
